theory Spec2Isabelle
  imports Main
begin

section \<open>Python strings\<close>

text \<open>
  Compare.py works on Python \<open>str\<close> values. They are modelled as \<open>string\<close> over ASCII.
  \<open>isspace\<close> is the set of ASCII characters for which Python's \<open>str.isspace\<close> holds; it is
  the set that \<open>str.strip()\<close>, \<open>str.split()\<close> and the regular expression class
  \<open>\s\<close> use: tab, line feed, vertical tab, form feed, carriage return, the four
  separators 0x1C..0x1F, and the space.
\<close>

definition isspace :: "char \<Rightarrow> bool" where
  "isspace c = (c \<in> set [CHR 0x09, CHR 0x0A, CHR 0x0B, CHR 0x0C, CHR 0x0D,
                          CHR 0x1C, CHR 0x1D, CHR 0x1E, CHR 0x1F, CHR 0x20])"

text \<open>\<open>s.strip()\<close>: leading and trailing whitespace removed.\<close>

definition strip_chars :: "(char \<Rightarrow> bool) \<Rightarrow> string \<Rightarrow> string" where
  "strip_chars P s = rev (dropWhile P (rev (dropWhile P s)))"

definition strip :: "string \<Rightarrow> string" where
  "strip s = strip_chars isspace s"

text \<open>
  \<open>s.split()\<close>: skip whitespace, take the run of non-whitespace characters as a token,
  repeat. No token is empty.
\<close>

function split :: "string \<Rightarrow> string list" where
  "split s =
     (case dropWhile isspace s of
        [] \<Rightarrow> []
      | c # cs \<Rightarrow> takeWhile (\<lambda>x. \<not> isspace x) (c # cs)
                 # split (dropWhile (\<lambda>x. \<not> isspace x) (c # cs)))"
  by pat_completeness auto
termination
proof (relation "measure length")
  show "wf (measure length)" by simp
next
  fix s :: string and c cs
  assume a: "dropWhile isspace s = c # cs"
  have "\<not> isspace c"
    using a hd_dropWhile [of isspace s] by fastforce
  then have "length (dropWhile (\<lambda>x. \<not> isspace x) (c # cs)) \<le> length cs"
    by (simp add: length_dropWhile_le)
  moreover have "length (c # cs) \<le> length s"
    using a length_dropWhile_le [of isspace s] by simp
  ultimately show "(dropWhile (\<lambda>x. \<not> isspace x) (c # cs), s) \<in> measure length"
    by simp
qed

text \<open>\<open>sep.join(tokens)\<close>.\<close>

fun join :: "string \<Rightarrow> string list \<Rightarrow> string" where
  "join sep [] = []"
| "join sep [t] = t"
| "join sep (t # u # ts) = t @ sep @ join sep (u # ts)"

text \<open>\<open>s.lower()\<close> on ASCII: the letters A..Z move to a..z.\<close>

definition lower_char :: "char \<Rightarrow> char" where
  "lower_char c =
     (let n = (of_char c :: nat) in if 65 \<le> n \<and> n \<le> 90 then char_of (n + 32) else c)"

definition lower :: "string \<Rightarrow> string" where
  "lower s = map lower_char s"

definition upper_char :: "char \<Rightarrow> char" where
  "upper_char c =
     (let n = (of_char c :: nat) in if 97 \<le> n \<and> n \<le> 122 then char_of (n - 32) else c)"

definition upper :: "string \<Rightarrow> string" where
  "upper s = map upper_char s"

text \<open>
  \<open>re.sub(cls+, repl, s)\<close> for a character class \<open>cls\<close>: every maximal run of
  characters of the class is replaced by \<open>repl\<close>.
\<close>

function re_sub_runs :: "(char \<Rightarrow> bool) \<Rightarrow> string \<Rightarrow> string \<Rightarrow> string" where
  "re_sub_runs P repl [] = []"
| "re_sub_runs P repl (c # cs) =
     (if P c then repl @ re_sub_runs P repl (dropWhile P cs)
      else c # re_sub_runs P repl cs)"
  by pat_completeness auto
termination
  by (relation "measure (\<lambda>(P, repl, s). length s)")
     (auto simp: length_dropWhile_le less_Suc_eq_le)

text \<open>The class \<open>[a-z0-9]\<close> of the second substitution in \<open>normalize_colname\<close>.\<close>

definition is_lower_alnum :: "char \<Rightarrow> bool" where
  "is_lower_alnum c =
     (let n = (of_char c :: nat) in (97 \<le> n \<and> n \<le> 122) \<or> (48 \<le> n \<and> n \<le> 57))"

text \<open>
  \<open>normalize_colname(name)\<close>, lines 34-39. The argument may be \<open>None\<close>.
\<close>

definition normalize_colname :: "string option \<Rightarrow> string" where
  "normalize_colname name =
     (case name of
        None \<Rightarrow> []
      | Some n \<Rightarrow>
          (let s = lower (strip (re_sub_runs isspace '' '' n));
               s = re_sub_runs (\<lambda>c. \<not> is_lower_alnum c) ''_'' s
           in strip_chars (\<lambda>c. c = CHR ''_'') s))"

section \<open>Tables and the worksheet\<close>

text \<open>
  A cell as both loaders deliver it: \<open>None\<close> is the empty cell (openpyxl's \<open>None\<close>,
  pandas' NaN), \<open>Some s\<close> a text. \<open>read_df\<close> reads every column with \<open>dtype=str\<close>.
\<close>

type_synonym cell = "string option"

text \<open>\<open>to_str(x)\<close>, lines 45-48.\<close>

definition to_str :: "cell \<Rightarrow> string" where
  "to_str x = (case x of None \<Rightarrow> [] | Some s \<Rightarrow> strip s)"

text \<open>
  A pandas DataFrame: the column labels and the rows, each row aligned with the labels.
  \<open>read_excel\<close> delivers labels that are pairwise different.
\<close>

record dataframe =
  columns :: "string list"
  rows :: "cell list list"

text \<open>\<open>row.get(header, "")\<close> on a row of the frame \<open>df\<close>.\<close>

definition row_get :: "dataframe \<Rightarrow> cell list \<Rightarrow> string \<Rightarrow> cell" where
  "row_get df row header =
     (case map_of (zip (columns df) row) header of None \<Rightarrow> Some [] | Some v \<Rightarrow> v)"

text \<open>
  The worksheet \<open>ws\<close> that \<open>load_workbook\<close> delivers: \<open>ws_cells ws (r, c)\<close> is
  \<open>ws.cell(row=r, column=c).value\<close> (rows and columns count from 1, a cell that does not
  exist reads \<open>None\<close>), with \<open>ws.max_row\<close> and \<open>ws.max_column\<close>.
\<close>

record worksheet =
  ws_cells :: "nat \<times> nat \<Rightarrow> cell"
  max_row :: nat
  max_column :: nat

text \<open>The two exceptions the module raises.\<close>

datatype error = ValueError | RuntimeError

text \<open>
  openpyxl's \<open>column_index_from_string\<close>: the letters are upper-cased and looked up in a
  table of the names A..ZZZ; any other text raises ValueError.
\<close>

definition is_upper_letter :: "char \<Rightarrow> bool" where
  "is_upper_letter c = (let n = (of_char c :: nat) in 65 \<le> n \<and> n \<le> 90)"

definition column_index_from_string :: "string \<Rightarrow> error + nat" where
  "column_index_from_string str_col =
     (let u = upper str_col in
      if 1 \<le> length u \<and> length u \<le> 3 \<and> list_all is_upper_letter u
      then Inr (foldl (\<lambda>n c. 26 * n + (of_char c - 64)) 0 u)
      else Inl ValueError)"

text \<open>\<open>header_from_letter(ws, letter)\<close>, lines 50-53: \<open>value or ""\<close>.\<close>

definition header_from_letter :: "worksheet \<Rightarrow> string \<Rightarrow> error + string" where
  "header_from_letter ws letter =
     (case column_index_from_string letter of
        Inl e \<Rightarrow> Inl e
      | Inr idx \<Rightarrow> Inr (case ws_cells ws (1, idx) of None \<Rightarrow> [] | Some v \<Rightarrow> v))"

text \<open>
  \<open>build_lookup(df, key_header)\<close>, lines 55-63. The dictionary is a map; the loop over
  \<open>df.iterrows()\<close> is a left fold, so a later row overwrites an earlier one.
\<close>

definition build_lookup_step ::
  "dataframe \<Rightarrow> string \<Rightarrow> (string \<rightharpoonup> cell list) \<Rightarrow> cell list \<Rightarrow> (string \<rightharpoonup> cell list)" where
  "build_lookup_step df key_header lookup row =
     (let key = to_str (row_get df row key_header)
      in if key \<noteq> [] then lookup(key \<mapsto> row) else lookup)"

definition build_lookup :: "dataframe \<Rightarrow> string \<Rightarrow> (string \<rightharpoonup> cell list)" where
  "build_lookup df key_header =
     (if key_header \<notin> set (columns df) then Map.empty
      else foldl (build_lookup_step df key_header) Map.empty (rows df))"

text \<open>
  \<open>get_headers_for_letters(ws, letters)\<close>, lines 65-72. An invalid letter raises in
  \<open>column_index_from_string\<close>.
\<close>

fun headers_loop ::
  "worksheet \<Rightarrow> (string \<rightharpoonup> string) \<Rightarrow> string list \<Rightarrow> error + (string \<rightharpoonup> string)" where
  "headers_loop ws header_map [] = Inr header_map"
| "headers_loop ws header_map (L # Ls) =
     (case column_index_from_string L of
        Inl e \<Rightarrow> Inl e
      | Inr idx \<Rightarrow>
          headers_loop ws
            (header_map(L \<mapsto> (case ws_cells ws (1, idx) of None \<Rightarrow> [] | Some h \<Rightarrow> h))) Ls)"

definition get_headers_for_letters ::
  "worksheet \<Rightarrow> string list \<Rightarrow> error + (string \<rightharpoonup> string)" where
  "get_headers_for_letters ws letters = headers_loop ws Map.empty letters"

text \<open>
  The dictionary \<open>{normalize_colname(c): c for c in cols}\<close> of lines 77 and 145: of two
  columns with one normal form the later one stays.
\<close>

definition norm_map :: "string list \<Rightarrow> (string \<rightharpoonup> string)" where
  "norm_map cols = foldl (\<lambda>m c. m(normalize_colname (Some c) \<mapsto> c)) Map.empty cols"

text \<open>\<open>find_matching_headers_in_q1(df_q1, q2_headers)\<close>, lines 74-85.\<close>

definition find_matching_headers_in_q1 ::
  "dataframe \<Rightarrow> (string \<rightharpoonup> string) \<Rightarrow> (string \<rightharpoonup> string)" where
  "find_matching_headers_in_q1 df_q1 q2_headers =
     (let q1_cols = columns df_q1;
          q1_norm_map = norm_map q1_cols
      in (\<lambda>L. case q2_headers L of
                None \<Rightarrow> None
              | Some h \<Rightarrow>
                  if h \<in> set q1_cols then Some h
                  else (let n = normalize_colname (Some h)
                        in Some (case q1_norm_map n of None \<Rightarrow> h | Some c \<Rightarrow> c))))"

section \<open>The worksheet while it is annotated\<close>

text \<open>
  \<open>InlineFont()\<close> is \<open>InlineFont None\<close>, \<open>InlineFont(color="FFFF0000")\<close> is
  \<open>InlineFont (Some ''FFFF0000'')\<close>. A \<open>CellRichText\<close> is a list of \<open>TextBlock\<close>s.
\<close>

datatype inline_font = InlineFont "string option"

datatype textblock = TextBlock (tb_font: inline_font) (tb_text: string)

text \<open>
  The value of a cell of the worksheet during the run: what the file held, or the rich
  text that \<open>apply_word_diff\<close> stored there.
\<close>

datatype cell_value = Plain cell | Rich "textblock list"

text \<open>
  The three \<open>PatternFill\<close> objects of lines 164-166, kept apart by the variable that
  holds them. \<open>fill_argb\<close> is their colour: \<open>changed_fill\<close> and \<open>newrow_fill\<close> are
  the same light blue.
\<close>

datatype fill = changed_fill | cleared_fill | newrow_fill

definition fill_argb :: "fill \<Rightarrow> string" where
  "fill_argb f = (case f of changed_fill \<Rightarrow> ''FF94DCF8'' | cleared_fill \<Rightarrow> ''FFED8EDA''
                   | newrow_fill \<Rightarrow> ''FF94DCF8'')"

text \<open>
  The state the loop works on: the value of every cell, and the fill the run has assigned
  to it (\<open>None\<close>: no assignment so far). The code never reads a fill, so the fills the
  file came with are left out.
\<close>

record sheet =
  value_at :: "nat \<times> nat \<Rightarrow> cell_value"
  fill_at :: "nat \<times> nat \<Rightarrow> fill option"

definition open_sheet :: "worksheet \<Rightarrow> sheet" where
  "open_sheet ws = \<lparr>value_at = (\<lambda>p. Plain (ws_cells ws p)), fill_at = (\<lambda>p. None)\<rparr>"

definition set_fill :: "sheet \<Rightarrow> nat \<Rightarrow> nat \<Rightarrow> fill \<Rightarrow> sheet" where
  "set_fill st r c f = st\<lparr>fill_at := (fill_at st)((r, c) := Some f)\<rparr>"

text \<open>
  \<open>to_str(cell2.value)\<close> on a cell of the worksheet, line 193. On a rich text (a list)
  \<open>pd.isna\<close> answers element by element, and Python takes the truth value of that
  answer only when it has exactly one element; otherwise ValueError is raised. With one
  block, \<open>str\<close> of the rich text is the text of the block.
\<close>

definition cell_to_str :: "cell_value \<Rightarrow> error + string" where
  "cell_to_str v =
     (case v of
        Plain x \<Rightarrow> Inr (to_str x)
      | Rich rt \<Rightarrow>
          if length rt = 1 then Inr (strip (concat (map tb_text rt))) else Inl ValueError)"

subsection \<open>Word diff\<close>

definition WORD_DIFF_COLUMNS :: "string set" where
  "WORD_DIFF_COLUMNS = {''O'', ''S'', ''T''}"

text \<open>
  The rich text that \<open>apply_word_diff\<close> builds, lines 93-108: one block per token of
  \<open>new_text\<close>, compared with the token of \<open>old_text\<close> at the same position.
\<close>

definition word_diff_block :: "string list \<Rightarrow> string list \<Rightarrow> nat \<times> string \<Rightarrow> textblock" where
  "word_diff_block old_tokens new_tokens it =
     (case it of (i, token) \<Rightarrow>
        TextBlock
          (if i < length old_tokens \<and> token = old_tokens ! i
           then InlineFont None else InlineFont (Some ''FFFF0000''))
          (if int i < int (length new_tokens) - 1 then token @ '' '' else token))"

definition word_diff_rt :: "string \<Rightarrow> string \<Rightarrow> textblock list" where
  "word_diff_rt old_text new_text =
     (let old_tokens = split old_text;
          new_tokens = split new_text
      in map (word_diff_block old_tokens new_tokens) (enumerate 0 new_tokens))"

text \<open>\<open>apply_word_diff(cell, old_text, new_text)\<close>, the cell being the one at \<open>(r, c)\<close>.\<close>

definition apply_word_diff :: "sheet \<Rightarrow> nat \<Rightarrow> nat \<Rightarrow> string \<Rightarrow> string \<Rightarrow> sheet" where
  "apply_word_diff st r c old_text new_text =
     st\<lparr>value_at := (value_at st)((r, c) := Rich (word_diff_rt old_text new_text))\<rparr>"

section \<open>highlight_q2_changes\<close>

text \<open>
  Lines 197-199: the value of the First workbook for the letter \<open>L\<close>, from the matched
  row \<open>q1_row\<close>.
\<close>

definition q1_value ::
  "dataframe \<Rightarrow> cell list \<Rightarrow> (string \<rightharpoonup> string) \<Rightarrow> (string \<rightharpoonup> string) \<Rightarrow> string \<Rightarrow> string" where
  "q1_value df_q1 q1_row q2_headers_by_letter q1_headers_by_letter L =
     (let q2_header = q2_headers_by_letter L;
          q1_header = (case q1_headers_by_letter L of None \<Rightarrow> q2_header | Some h \<Rightarrow> Some h)
      in case q1_header of
           None \<Rightarrow> []
         | Some h \<Rightarrow> if h \<in> set (columns df_q1) then to_str (row_get df_q1 q1_row h) else [])"

text \<open>Lines 201-210: the two cases, on the cell at \<open>(r, col_idx)\<close>.\<close>

definition mark_cell :: "sheet \<Rightarrow> nat \<Rightarrow> nat \<Rightarrow> string \<Rightarrow> string \<Rightarrow> string \<Rightarrow> sheet" where
  "mark_cell st r col_idx L q1_val q2_val =
     (if q1_val \<noteq> [] \<and> q2_val = [] then set_fill st r col_idx cleared_fill
      else if q2_val \<noteq> q1_val then
        (let st1 = set_fill st r col_idx changed_fill
         in if L \<in> WORD_DIFF_COLUMNS \<and> q2_val \<noteq> []
            then apply_word_diff st1 r col_idx q1_val q2_val else st1)
      else st)"

text \<open>Lines 191-210: the body of the loop over \<open>target_letters\<close>.\<close>

definition compare_cell ::
  "dataframe \<Rightarrow> cell list \<Rightarrow> (string \<rightharpoonup> string) \<Rightarrow> (string \<rightharpoonup> string) \<Rightarrow> nat
     \<Rightarrow> sheet \<Rightarrow> string \<Rightarrow> error + sheet" where
  "compare_cell df_q1 q1_row q2_headers_by_letter q1_headers_by_letter r st L =
     (case column_index_from_string L of
        Inl e \<Rightarrow> Inl e
      | Inr col_idx \<Rightarrow>
          (case cell_to_str (value_at st (r, col_idx)) of
             Inl e \<Rightarrow> Inl e
           | Inr q2_val \<Rightarrow>
               Inr (mark_cell st r col_idx L
                      (q1_value df_q1 q1_row q2_headers_by_letter q1_headers_by_letter L)
                      q2_val)))"

text \<open>Line 190: \<open>for L in target_letters\<close>.\<close>

fun compare_columns ::
  "dataframe \<Rightarrow> cell list \<Rightarrow> (string \<rightharpoonup> string) \<Rightarrow> (string \<rightharpoonup> string) \<Rightarrow> nat
     \<Rightarrow> sheet \<Rightarrow> string list \<Rightarrow> error + sheet" where
  "compare_columns df_q1 q1_row q2h q1h r st [] = Inr st"
| "compare_columns df_q1 q1_row q2h q1h r st (L # Ls) =
     (case compare_cell df_q1 q1_row q2h q1h r st L of
        Inl e \<Rightarrow> Inl e
      | Inr st' \<Rightarrow> compare_columns df_q1 q1_row q2h q1h r st' Ls)"

text \<open>Lines 183-184: the whole row gets \<open>newrow_fill\<close>.\<close>

definition fill_row :: "sheet \<Rightarrow> nat \<Rightarrow> nat \<Rightarrow> sheet" where
  "fill_row st r max_col = foldl (\<lambda>s c. set_fill s r c newrow_fill) st [1..<max_col + 1]"

text \<open>Line 178: the key of the row of the Second workbook's frame at \<open>df_idx\<close>.\<close>

definition key_val_at :: "dataframe \<Rightarrow> string \<Rightarrow> nat \<Rightarrow> string" where
  "key_val_at df_q2 key_header_q2 df_idx =
     to_str (row_get df_q2 (rows df_q2 ! df_idx) key_header_q2)"

text \<open>
  Lines 174-210: the body of the loop over the rows, for the worksheet row \<open>r\<close>.
\<close>

definition process_row ::
  "dataframe \<Rightarrow> string \<Rightarrow> (string \<rightharpoonup> cell list) \<Rightarrow> dataframe
     \<Rightarrow> (string \<rightharpoonup> string) \<Rightarrow> (string \<rightharpoonup> string) \<Rightarrow> string list \<Rightarrow> nat
     \<Rightarrow> sheet \<Rightarrow> nat \<Rightarrow> error + sheet" where
  "process_row df_q2 key_header_q2 q1_lookup df_q1 q2h q1h target_letters max_col st r =
     (let df_idx = int r - 2 in
      if \<not> (0 \<le> df_idx \<and> df_idx < int (length (rows df_q2))) then Inr st
      else
        (let key_val = key_val_at df_q2 key_header_q2 (nat df_idx);
             is_new_project = (key_val \<noteq> [] \<and> q1_lookup key_val = None)
         in if is_new_project then Inr (fill_row st r max_col)
            else (case q1_lookup key_val of
                    Some q1_row \<Rightarrow> compare_columns df_q1 q1_row q2h q1h r st target_letters
                  | None \<Rightarrow> Inr st)))"

text \<open>Line 173: \<open>for r in range(2, max_row + 1)\<close>.\<close>

fun scan_rows ::
  "dataframe \<Rightarrow> string \<Rightarrow> (string \<rightharpoonup> cell list) \<Rightarrow> dataframe
     \<Rightarrow> (string \<rightharpoonup> string) \<Rightarrow> (string \<rightharpoonup> string) \<Rightarrow> string list \<Rightarrow> nat
     \<Rightarrow> sheet \<Rightarrow> nat list \<Rightarrow> error + sheet" where
  "scan_rows df_q2 kh2 q1_lookup df_q1 q2h q1h letters max_col st [] = Inr st"
| "scan_rows df_q2 kh2 q1_lookup df_q1 q2h q1h letters max_col st (r # rs) =
     (case process_row df_q2 kh2 q1_lookup df_q1 q2h q1h letters max_col st r of
        Inl e \<Rightarrow> Inl e
      | Inr st' \<Rightarrow> scan_rows df_q2 kh2 q1_lookup df_q1 q2h q1h letters max_col st' rs)"

text \<open>
  Lines 142-151: the key header of the First workbook, the same text or else the column
  with the same normal form.
\<close>

definition resolve_key_header :: "dataframe \<Rightarrow> string \<Rightarrow> error + string" where
  "resolve_key_header df_q1 key_header_q2 =
     (if key_header_q2 \<in> set (columns df_q1) then Inr key_header_q2
      else (case norm_map (columns df_q1) (normalize_colname (Some key_header_q2)) of
              None \<Rightarrow> Inl RuntimeError
            | Some key_header_q1 \<Rightarrow> Inr key_header_q1))"

text \<open>The calls of \<open>progress_cb\<close>, in the order of the code.\<close>

datatype progress = Loading | Reading | Indexing | Scanning | Saving

text \<open>
  \<open>highlight_q2_changes\<close>, lines 112-220. The arguments are what the three loader calls
  deliver for the two paths: \<open>ws\<close> and \<open>df_q2\<close> for the Second workbook, \<open>df_q1\<close>
  for the First. The result is the list of progress messages sent, and either the
  exception raised or the two key headers with the worksheet that \<open>wb.save\<close> writes to
  the new path.
\<close>

definition highlight_q2_changes ::
  "worksheet \<Rightarrow> dataframe \<Rightarrow> dataframe \<Rightarrow> string list
     \<Rightarrow> progress list \<times> (error + string \<times> string \<times> sheet)" where
  "highlight_q2_changes ws df_q2 df_q1 target_letters =
     (if target_letters = [] then ([], Inl ValueError)
      else
        (case header_from_letter ws ''B'' of
           Inl e \<Rightarrow> ([Loading], Inl e)
         | Inr key_header_q2 \<Rightarrow>
             if key_header_q2 = [] then ([Loading], Inl RuntimeError)
             else
               (case resolve_key_header df_q1 key_header_q2 of
                  Inl e \<Rightarrow> ([Loading, Reading], Inl e)
                | Inr key_header_q1 \<Rightarrow>
                    (let q1_lookup = build_lookup df_q1 key_header_q1 in
                     case get_headers_for_letters ws target_letters of
                       Inl e \<Rightarrow> ([Loading, Reading, Indexing], Inl e)
                     | Inr q2_headers_by_letter \<Rightarrow>
                         (let q1_headers_by_letter =
                                find_matching_headers_in_q1 df_q1 q2_headers_by_letter
                          in case scan_rows df_q2 key_header_q2 q1_lookup df_q1
                                    q2_headers_by_letter q1_headers_by_letter target_letters
                                    (max_column ws) (open_sheet ws) [2..<max_row ws + 1] of
                               Inl e \<Rightarrow> ([Loading, Reading, Indexing, Scanning], Inl e)
                             | Inr st \<Rightarrow>
                                 ([Loading, Reading, Indexing, Scanning, Saving],
                                  Inr (key_header_q1, key_header_q2, st)))))))"

section \<open>Notions used to state the properties\<close>

text \<open>Trailing whitespace removed.\<close>

definition rstrip :: "string \<Rightarrow> string" where
  "rstrip s = rev (dropWhile isspace (rev s))"

text \<open>
  A text with every run of whitespace collapsed to one space and the whitespace at both
  ends removed.
\<close>

definition collapse_whitespace :: "string \<Rightarrow> string" where
  "collapse_whitespace s = strip (re_sub_runs isspace '' '' s)"

text \<open>Two states of the worksheet agree on the row \<open>r\<close>.\<close>

definition same_row :: "nat \<Rightarrow> sheet \<Rightarrow> sheet \<Rightarrow> bool" where
  "same_row r st st' =
     (\<forall>c. value_at st (r, c) = value_at st' (r, c) \<and> fill_at st (r, c) = fill_at st' (r, c))"

text \<open>
  The worksheet a run saves, if it saves one, and the fill and the value of a cell in it.
\<close>

definition saved :: "progress list \<times> (error + string \<times> string \<times> sheet) \<Rightarrow> sheet option" where
  "saved res = (case snd res of Inl e \<Rightarrow> None | Inr (k1, k2, st) \<Rightarrow> Some st)"

definition saved_fill ::
  "progress list \<times> (error + string \<times> string \<times> sheet) \<Rightarrow> nat \<times> nat \<Rightarrow> fill option option" where
  "saved_fill res p = (case saved res of None \<Rightarrow> None | Some st \<Rightarrow> Some (fill_at st p))"

definition saved_value ::
  "progress list \<times> (error + string \<times> string \<times> sheet) \<Rightarrow> nat \<times> nat \<Rightarrow> cell_value option" where
  "saved_value res p = (case saved res of None \<Rightarrow> None | Some st \<Rightarrow> Some (value_at st p))"

text \<open>The trimmed values of one column of a frame, row by row.\<close>

definition column_values :: "dataframe \<Rightarrow> string \<Rightarrow> string list" where
  "column_values df header = map (\<lambda>row. to_str (row_get df row header)) (rows df)"

section \<open>Example tables\<close>

text \<open>
  A worksheet from its rows (the first is the header row), as a loader would deliver it.
\<close>

definition sheet_of_rows :: "cell list list \<Rightarrow> worksheet" where
  "sheet_of_rows g =
     \<lparr>ws_cells = (\<lambda>(r, c). if 1 \<le> r \<and> r \<le> length g \<and> 1 \<le> c \<and> c \<le> length (g ! (r - 1))
                            then g ! (r - 1) ! (c - 1) else None),
      max_row = max 1 (length g),
      max_column = max 1 (foldl max 0 (map length g))\<rparr>"

text \<open>The frame that \<open>read_excel\<close> delivers for such rows with a complete header row.\<close>

definition frame_of_rows :: "cell list list \<Rightarrow> dataframe" where
  "frame_of_rows g =
     (case g of [] \<Rightarrow> \<lparr>columns = [], rows = []\<rparr>
      | h # rs \<Rightarrow> \<lparr>columns = map (\<lambda>x. case x of None \<Rightarrow> [] | Some s \<Rightarrow> s) h, rows = rs\<rparr>)"

text \<open>
  Two workbooks with the columns A..O; the key is in column B, column C is compared
  cell by cell, column O also word by word.
\<close>

definition ex_header :: "cell list" where
  "ex_header = map Some ([''No'', ''OB Main ID'', ''Note'']
                 @ map (\<lambda>c. [c]) ''DEFGHIJKLMN'' @ [''Status''])"

definition ex_row :: "cell \<Rightarrow> cell \<Rightarrow> cell \<Rightarrow> cell \<Rightarrow> cell list" where
  "ex_row a b c w = [a, b, c] @ replicate 11 None @ [w]"

definition ex_q1 :: "cell list list" where
  "ex_q1 = [ex_header,
            ex_row (Some ''1'') (Some ''1001'') (Some ''same'') (Some ''Alpha Beta''),
            ex_row (Some ''2'') (Some ''1002'') (Some ''Keep'') (Some ''old'')]"

definition ex_q2 :: "cell list list" where
  "ex_q2 = [ex_header,
            ex_row (Some ''1'') (Some ''1001'') (Some ''same'') (Some ''Alpha  Gamma''),
            ex_row (Some ''2'') (Some '' 1002'') None (Some ''old''),
            ex_row (Some ''3'') None (Some ''X'') (Some ''Y''),
            ex_row (Some ''4'') (Some ''2002'') (Some ''New'') (Some ''Z'')]"

definition ex_run :: "progress list \<times> (error + string \<times> string \<times> sheet)" where
  "ex_run = highlight_q2_changes (sheet_of_rows ex_q2) (frame_of_rows ex_q2)
              (frame_of_rows ex_q1) [''C'', ''O'']"

text \<open>A frame in which one key occurs twice, once with blanks around it.\<close>

definition ex_dup :: dataframe where
  "ex_dup = \<lparr>columns = [''ID'', ''Note''],
             rows = [[Some ''A'', Some ''first''], [None, Some ''blank''],
                     [Some '' A '', Some ''second''], [Some ''B'', Some ''other'']]\<rparr>"

text \<open>
  Baseline frames for the key and header resolution: one without the column Status, one
  whose key header differs from \<open>OB Main ID\<close> in case and spacing only, one without any
  column for the key.
\<close>

definition ex_q1_short :: dataframe where
  "ex_q1_short = \<lparr>columns = [''No'', ''OB Main ID'', ''Note''],
                  rows = [[Some ''1'', Some ''1001'', Some ''same'']]\<rparr>"

definition ex_q1_drift :: dataframe where
  "ex_q1_drift = \<lparr>columns = [''No'', ''ob  main id '', ''Note''],
                  rows = [[Some ''1'', Some ''1001'', Some ''same'']]\<rparr>"

definition ex_q1_nokey :: dataframe where
  "ex_q1_nokey = \<lparr>columns = [''No'', ''Project'', ''Note''],
                  rows = [[Some ''1'', Some ''1001'', Some ''same'']]\<rparr>"

section \<open>Whitespace, tokens and the text of the word diff\<close>

declare split.simps [simp del]


lemma strip_rstrip: "strip s = rstrip (dropWhile isspace s)"
  by (simp add: strip_def strip_chars_def rstrip_def)

lemma rstrip_append:
  "rstrip (a @ b) = (if \<forall>x\<in>set b. isspace x then rstrip a else a @ rstrip b)"
  by (simp add: rstrip_def dropWhile_append)

lemma rstrip_Nil: "rstrip [] = []"
  by (simp add: rstrip_def)

lemma rstrip_token: "tok \<noteq> [] \<Longrightarrow> \<forall>x\<in>set tok. \<not> isspace x \<Longrightarrow> rstrip tok = tok"
  by (cases tok rule: rev_cases) (auto simp: rstrip_def)

lemma re_sub_runs_pass:
  "\<forall>x\<in>set tok. \<not> P x \<Longrightarrow> re_sub_runs P repl (tok @ t) = tok @ re_sub_runs P repl t"
  by (induction tok) auto

lemma re_sub_runs_run:
  "t \<noteq> [] \<Longrightarrow> P (hd t) \<Longrightarrow> re_sub_runs P repl t = repl @ re_sub_runs P repl (dropWhile P t)"
  by (cases t) auto

lemma re_sub_runs_lstripped:
  "dropWhile isspace (re_sub_runs isspace '' '' (dropWhile isspace s))
     = re_sub_runs isspace '' '' (dropWhile isspace s)"
proof (cases "dropWhile isspace s")
  case Nil
  show ?thesis unfolding Nil by simp
next
  case (Cons d ds)
  have "\<not> isspace d" using Cons hd_dropWhile [of isspace s] by fastforce
  then show ?thesis unfolding Cons by simp
qed

lemma split_Nil:
  assumes "dropWhile isspace s = []"
  shows "split s = []"
  by (subst split.simps) (simp only: assms list.case)

lemma split_Cons:
  assumes "dropWhile isspace s = c # cs"
  shows "split s = takeWhile (\<lambda>x. \<not> isspace x) (c # cs)
                     # split (dropWhile (\<lambda>x. \<not> isspace x) (c # cs))"
  by (subst split.simps) (simp only: assms list.case)

lemma join_Cons: "join sep (t # ts) = (if ts = [] then t else t @ sep @ join sep ts)"
  by (cases ts) auto

lemma join_split_collapse:
  "join '' '' (split s) = rstrip (re_sub_runs isspace '' '' (dropWhile isspace s))"
proof (induction s rule: split.induct)
  case (1 s)
  show ?case
  proof (cases "dropWhile isspace s")
    case Nil
    show ?thesis
      unfolding Nil split_Nil [OF Nil] by (simp add: rstrip_Nil)
  next
    case (Cons c cs)
    define tok where "tok = takeWhile (\<lambda>x. \<not> isspace x) (c # cs)"
    define rest where "rest = dropWhile (\<lambda>x. \<not> isspace x) (c # cs)"
    define u where "u = dropWhile isspace rest"
    have c: "\<not> isspace c"
      using Cons hd_dropWhile [of isspace s] by fastforce
    have tok_ne: "tok \<noteq> []" using c by (simp add: tok_def)
    have tok_ns: "\<forall>x\<in>set tok. \<not> isspace x"
      unfolding tok_def by (auto dest: set_takeWhileD)
    have s': "c # cs = tok @ rest" by (simp add: tok_def rest_def)
    have sp: "split s = tok # split rest"
      using split_Cons [OF Cons] by (simp add: tok_def rest_def)
    have IH: "join '' '' (split rest) = rstrip (re_sub_runs isspace '' '' u)"
      using "1.IH" [OF Cons] by (simp add: rest_def u_def)
    have col: "re_sub_runs isspace '' '' (c # cs) = tok @ re_sub_runs isspace '' '' rest"
      unfolding s' by (rule re_sub_runs_pass [OF tok_ns])
    have rhs: "rstrip (re_sub_runs isspace '' '' (dropWhile isspace s))
                 = rstrip (tok @ re_sub_runs isspace '' '' rest)"
      unfolding Cons col ..
    show ?thesis
    proof (cases "rest = []")
      case True
      have "split rest = []" using True by (simp add: split_Nil)
      then show ?thesis
        unfolding rhs sp using True tok_ne tok_ns by (simp add: rstrip_token)
    next
      case False
      have hd_rest: "isspace (hd rest)"
        using False hd_dropWhile [of "\<lambda>x. \<not> isspace x" "c # cs"] by (simp add: rest_def)
      have col_rest: "re_sub_runs isspace '' '' rest = '' '' @ re_sub_runs isspace '' '' u"
        unfolding u_def by (rule re_sub_runs_run [where P = isspace, OF False hd_rest])
      have sp1: "isspace CHR '' ''" by (simp add: isspace_def)
      show ?thesis
      proof (cases "u = []")
        case True
        have "split rest = []" using True by (simp add: u_def split_Nil)
        then show ?thesis
          unfolding rhs sp col_rest True using sp1 tok_ne tok_ns
          by (simp add: rstrip_append rstrip_token)
      next
        case uf: False
        then obtain d ds where u: "dropWhile isspace rest = d # ds"
          by (cases u) (auto simp: u_def)
        have d: "\<not> isspace d" using u hd_dropWhile [of isspace rest] by fastforce
        have ne: "split rest \<noteq> []" using split_Cons [OF u] by simp
        have "re_sub_runs isspace '' '' u = d # re_sub_runs isspace '' '' ds"
          using u d by (simp add: u_def)
        then have notall: "\<not> (\<forall>x\<in>set (re_sub_runs isspace '' '' u). isspace x)"
          using d by auto
        have "rstrip (tok @ '' '' @ re_sub_runs isspace '' '' u)
                = tok @ '' '' @ rstrip (re_sub_runs isspace '' '' u)"
          using notall rstrip_append [of "tok @ '' ''" "re_sub_runs isspace '' '' u"] by auto
        then show ?thesis
          unfolding rhs sp col_rest using ne IH by (simp add: join_Cons)
      qed
    qed
  qed
qed

lemma lstrip_collapse:
  "dropWhile isspace (re_sub_runs isspace '' '' s) = re_sub_runs isspace '' '' (dropWhile isspace s)"
proof (cases "s = [] \<or> \<not> isspace (hd s)")
  case True
  then show ?thesis by (cases s) auto
next
  case False
  then have ne: "s \<noteq> []" and h: "isspace (hd s)" by auto
  have sp1: "isspace CHR '' ''" by (simp add: isspace_def)
  show ?thesis
    unfolding re_sub_runs_run [where P = isspace and repl = "'' ''", OF ne h] using sp1
    by (simp add: re_sub_runs_lstripped)
qed

lemma join_split: "join '' '' (split s) = strip (re_sub_runs isspace '' '' s)"
  by (simp add: join_split_collapse strip_rstrip lstrip_collapse)

lemma concat_blocks:
  "concat (map (\<lambda>it. tb_text (word_diff_block old ns it)) (enumerate k ts)) = join '' '' ts"
  if "length ns = k + length ts"
  using that
proof (induction ts arbitrary: k)
  case Nil
  then show ?case by simp
next
  case (Cons t ts)
  have "concat (map (\<lambda>it. tb_text (word_diff_block old ns it)) (enumerate (Suc k) ts)) = join '' '' ts"
    using Cons.prems by (intro Cons.IH) simp
  then show ?case
    using Cons.prems by (cases ts) (auto simp: word_diff_block_def)
qed

lemma word_diff_text:
  "concat (map tb_text (word_diff_rt old_text new_text)) = join '' '' (split new_text)"
  using concat_blocks [of "split new_text" 0 "split new_text" "split old_text"]
  by (simp add: word_diff_rt_def Let_def comp_def)


section \<open>The baseline index\<close>

lemma build_lookup_fold:
  "foldl (build_lookup_step df h) m rs k =
     (if k = [] then m k
      else (case find (\<lambda>row. to_str (row_get df row h) = k) (rev rs) of
              None \<Rightarrow> m k | Some row \<Rightarrow> Some row))"
proof (induction rs rule: rev_induct)
  case Nil
  then show ?case by simp
next
  case (snoc r rs)
  then show ?case
    by (auto simp: build_lookup_step_def Let_def)
qed

lemma row_get_default: "h \<notin> set (columns df) \<Longrightarrow> row_get df row h = Some []"
proof -
  assume "h \<notin> set (columns df)"
  then have "h \<notin> fst ` set (zip (columns df) row)"
    by (auto dest: set_zip_leftD)
  then have "map_of (zip (columns df) row) h = None"
    by (simp add: map_of_eq_None_iff)
  then show ?thesis by (simp add: row_get_def)
qed

lemma to_str_empty: "to_str (Some []) = []"
  by (simp add: to_str_def strip_def strip_chars_def)

lemma build_lookup_find:
  "build_lookup df h k =
     (if k = [] then None
      else find (\<lambda>row. to_str (row_get df row h) = k) (rev (rows df)))"
proof (cases "h \<in> set (columns df)")
  case True
  then show ?thesis
    by (simp add: build_lookup_def build_lookup_fold split: option.splits)
next
  case False
  then have "\<And>row. to_str (row_get df row h) = []"
    by (simp add: row_get_default to_str_empty)
  then have "k \<noteq> [] \<Longrightarrow> find (\<lambda>row. to_str (row_get df row h) = k) (rev (rows df)) = None"
    by (auto simp: find_None_iff)
  with False show ?thesis by (auto simp: build_lookup_def)
qed

lemma find_Some_in: "find P xs = Some x \<Longrightarrow> x \<in> set xs \<and> P x"
  by (induction xs) (auto split: if_splits)

lemma find_rev_last:
  "P row \<Longrightarrow> \<forall>x\<in>set post. \<not> P x \<Longrightarrow> find P (rev (pre @ row # post)) = Some row"
  by (induction post rule: rev_induct) auto

text \<open>
  C7. The index never holds the empty key. Whatever it holds under a key is a row of the
  baseline frame whose trimmed key is that key. Of the rows with one non-empty key the
  index holds the last in table order: a row after which no row has the same key.
\<close>

theorem build_lookup_last_seen:
  "build_lookup df key_header [] = None \<and>
   (build_lookup df key_header k = Some row \<longrightarrow>
      row \<in> set (rows df) \<and> to_str (row_get df row key_header) = k \<and> k \<noteq> []) \<and>
   (rows df = pre @ row' # post \<and> to_str (row_get df row' key_header) = k' \<and> k' \<noteq> [] \<and>
    (\<forall>x\<in>set post. to_str (row_get df x key_header) \<noteq> k') \<longrightarrow>
      build_lookup df key_header k' = Some row')"
proof -
  let ?key = "\<lambda>x. to_str (row_get df x key_header)"
  have empty: "build_lookup df key_header [] = None"
    by (simp add: build_lookup_find)
  have sound: "row \<in> set (rows df) \<and> ?key row = k \<and> k \<noteq> []"
    if a: "build_lookup df key_header k = Some row"
  proof -
    from a have k: "k \<noteq> []" by (auto simp: build_lookup_find split: if_splits)
    with a have "find (\<lambda>x. ?key x = k) (rev (rows df)) = Some row"
      by (simp add: build_lookup_find)
    then have "row \<in> set (rev (rows df)) \<and> ?key row = k"
      by (rule find_Some_in [where P = "\<lambda>x. ?key x = k"])
    with k show ?thesis by simp
  qed
  have last: "build_lookup df key_header k' = Some row'"
    if "rows df = pre @ row' # post" "?key row' = k'" "k' \<noteq> []"
       "\<forall>x\<in>set post. ?key x \<noteq> k'"
    using that find_rev_last [where P = "\<lambda>x. ?key x = k'" and row = row' and post = post and pre = pre]
    by (simp add: build_lookup_find)
  from empty sound last show ?thesis by blast
qed

theorem build_lookup_last_seen_witness:
  "rows ex_dup = [[Some ''A'', Some ''first''], [None, Some ''blank'']]
                   @ [Some '' A '', Some ''second''] # [[Some ''B'', Some ''other'']] \<and>
   to_str (row_get ex_dup [Some '' A '', Some ''second''] ''ID'') = ''A'' \<and>
   to_str (row_get ex_dup [Some ''B'', Some ''other''] ''ID'') \<noteq> ''A'' \<and>
   build_lookup ex_dup ''ID'' ''A'' = Some [Some '' A '', Some ''second''] \<and>
   build_lookup ex_dup ''ID'' [] = None"
proof -
  have h1: "rows ex_dup = [[Some ''A'', Some ''first''], [None, Some ''blank'']]
                   @ [Some '' A '', Some ''second''] # [[Some ''B'', Some ''other'']]"
    by (simp add: ex_dup_def)
  have h2: "to_str (row_get ex_dup [Some '' A '', Some ''second''] ''ID'') = ''A''"
    by code_simp
  have h3: "to_str (row_get ex_dup [Some ''B'', Some ''other''] ''ID'') \<noteq> ''A''"
    by code_simp
  show ?thesis
    using h1 h2 h3
      build_lookup_last_seen [of ex_dup "''ID''" "''A''" "[Some '' A '', Some ''second'']"
        "[[Some ''A'', Some ''first''], [None, Some ''blank'']]"
        "[Some '' A '', Some ''second'']" "[[Some ''B'', Some ''other'']]" "''A''"]
    by simp
qed

section \<open>The text of a rewritten cell\<close>

lemma tab_becomes_space:
  "concat (map tb_text (word_diff_rt [] [CHR ''a'', CHR 0x09, CHR ''b''])) = ''a b''"
  by code_simp

text \<open>
  C10. The texts of the blocks of a word diff, put together in order, are the tokens of
  the current value joined by single spaces, which is the current value with every run
  of whitespace collapsed to one space and the whitespace at both ends removed; the
  whitespace the value had is not kept (a tab comes back as a space).
\<close>

theorem word_diff_text_collapsed:
  "concat (map tb_text (word_diff_rt old_text new_text)) = join '' '' (split new_text) \<and>
   concat (map tb_text (word_diff_rt old_text new_text)) = collapse_whitespace new_text \<and>
   concat (map tb_text (word_diff_rt old_text [CHR ''a'', CHR 0x09, CHR ''b'']))
     \<noteq> [CHR ''a'', CHR 0x09, CHR ''b'']"
proof -
  have "concat (map tb_text (word_diff_rt old_text [CHR ''a'', CHR 0x09, CHR ''b'']))
          = concat (map tb_text (word_diff_rt [] [CHR ''a'', CHR 0x09, CHR ''b'']))"
    by (simp only: word_diff_text)
  then have "concat (map tb_text (word_diff_rt old_text [CHR ''a'', CHR 0x09, CHR ''b'']))
               \<noteq> [CHR ''a'', CHR 0x09, CHR ''b'']"
    by (simp only: tab_becomes_space) simp
  moreover have "concat (map tb_text (word_diff_rt old_text new_text))
                   = join '' '' (split new_text)"
    by (rule word_diff_text)
  moreover have "join '' '' (split new_text) = collapse_whitespace new_text"
    by (simp add: join_split collapse_whitespace_def)
  ultimately show ?thesis by simp
qed

section \<open>One cell\<close>

lemma cell_to_str_Plain: "cell_to_str (Plain v) = Inr (to_str v)"
  by (simp add: cell_to_str_def)

lemma compare_cell_Plain:
  assumes "column_index_from_string L = Inr c" and "value_at st (r, c) = Plain v"
  shows "compare_cell df_q1 q1_row q2h q1h r st L =
           Inr (mark_cell st r c L (q1_value df_q1 q1_row q2h q1h L) (to_str v))"
  using assms by (simp add: compare_cell_def cell_to_str_Plain)

lemma mark_cell_fill:
  "fill_at (mark_cell st r c L q1_val q2_val) p =
     (if p = (r, c) then
        (if q1_val \<noteq> [] \<and> q2_val = [] then Some cleared_fill
         else if q2_val \<noteq> q1_val then Some changed_fill else fill_at st p)
      else fill_at st p)"
  by (simp add: mark_cell_def set_fill_def apply_word_diff_def Let_def)

lemma mark_cell_value:
  "value_at (mark_cell st r c L q1_val q2_val) p =
     (if p = (r, c) \<and> q2_val \<noteq> q1_val \<and> L \<in> WORD_DIFF_COLUMNS \<and> q2_val \<noteq> []
      then Rich (word_diff_rt q1_val q2_val) else value_at st p)"
  by (auto simp: mark_cell_def set_fill_def apply_word_diff_def Let_def)

text \<open>
  C1. The body of the loop over the letters, on a cell that holds a text or nothing and
  that the run has not filled so far, with the trimmed current value \<open>to_str v\<close> and
  the trimmed baseline value \<open>q1_value \<dots>\<close>. The cell gets \<open>cleared_fill\<close> (Cleared)
  exactly when the baseline value is non-empty and the current value is empty; it gets no
  fill (Unchanged) exactly when the two values are equal; it gets \<open>changed_fill\<close>
  (Changed) exactly when they differ and the Cleared case does not hold. The three
  outcomes exclude each other, and there is no fourth.
\<close>

theorem cell_classification:
  assumes "column_index_from_string L = Inr c"
      and "value_at st (r, c) = Plain v"
      and "fill_at st (r, c) = None"
  shows "\<exists>st'. compare_cell df_q1 q1_row q2h q1h r st L = Inr st' \<and>
           (fill_at st' (r, c) = Some cleared_fill \<longleftrightarrow>
              q1_value df_q1 q1_row q2h q1h L \<noteq> [] \<and> to_str v = []) \<and>
           (fill_at st' (r, c) = None \<longleftrightarrow>
              to_str v = q1_value df_q1 q1_row q2h q1h L) \<and>
           (fill_at st' (r, c) = Some changed_fill \<longleftrightarrow>
              to_str v \<noteq> q1_value df_q1 q1_row q2h q1h L \<and>
              \<not> (q1_value df_q1 q1_row q2h q1h L \<noteq> [] \<and> to_str v = [])) \<and>
           fill_at st' (r, c) \<noteq> Some newrow_fill"
  using assms(3) unfolding compare_cell_Plain [OF assms(1,2)]
  by (auto simp: mark_cell_fill)

lemma ex_cleared_q1: 
  "q1_value (frame_of_rows ex_q1)
      (ex_row (Some ''2'') (Some ''1002'') (Some ''Keep'') (Some ''old''))
      [''C'' \<mapsto> ''Note''] [''C'' \<mapsto> ''Note''] ''C'' = ''Keep''"
  by code_simp

theorem cell_classification_witness:
  "column_index_from_string ''C'' = Inr 3 \<and>
   value_at (open_sheet (sheet_of_rows ex_q2)) (3, 3) = Plain None \<and>
   fill_at (open_sheet (sheet_of_rows ex_q2)) (3, 3) = None \<and>
   (\<exists>st'. compare_cell (frame_of_rows ex_q1)
             (ex_row (Some ''2'') (Some ''1002'') (Some ''Keep'') (Some ''old''))
             [''C'' \<mapsto> ''Note''] [''C'' \<mapsto> ''Note''] 3
             (open_sheet (sheet_of_rows ex_q2)) ''C'' = Inr st' \<and>
          fill_at st' (3, 3) = Some cleared_fill)"
proof -
  have h1: "column_index_from_string ''C'' = Inr 3" by code_simp
  have h2: "value_at (open_sheet (sheet_of_rows ex_q2)) (3, 3) = Plain None" by code_simp
  have h3: "fill_at (open_sheet (sheet_of_rows ex_q2)) (3, 3) = None"
    by (simp add: open_sheet_def)
  have h4: "to_str None = []" by (simp add: to_str_def)
  show ?thesis
    using h1 h2 h3 h4 ex_cleared_q1
      cell_classification [OF h1 h2 h3, of "frame_of_rows ex_q1"
        "ex_row (Some ''2'') (Some ''1002'') (Some ''Keep'') (Some ''old'')"
        "[''C'' \<mapsto> ''Note'']" "[''C'' \<mapsto> ''Note'']"]
    by auto
qed


lemma word_diff_rt_length: "length (word_diff_rt old_text new_text) = length (split new_text)"
  by (simp add: word_diff_rt_def Let_def)

lemma word_diff_rt_nth:
  assumes "i < length (split new_text)"
  shows "word_diff_rt old_text new_text ! i =
           TextBlock
             (if i < length (split old_text) \<and> split new_text ! i = split old_text ! i
              then InlineFont None else InlineFont (Some ''FFFF0000''))
             (split new_text ! i @ (if i + 1 < length (split new_text) then '' '' else []))"
proof -
  have "int i < int (length (split new_text)) - 1 \<longleftrightarrow> i + 1 < length (split new_text)"
    by auto
  then show ?thesis
    using assms
    by (simp add: word_diff_rt_def Let_def nth_enumerate_eq word_diff_block_def)
qed

text \<open>
  C4. On such a cell the value becomes a rich text exactly when the cell is Changed, the
  letter is one of \<open>WORD_DIFF_COLUMNS\<close> and the current value is non-empty, and then it
  is the word diff of the two values. The word diff has one block per token of the
  current value; block \<open>i\<close> carries token \<open>i\<close> (with the separating space, except
  for the last), in the default font exactly when the baseline value has a token \<open>i\<close>
  and it is the same text, and in red otherwise.
\<close>

theorem word_diff_annotation:
  assumes "column_index_from_string L = Inr c"
      and "value_at st (r, c) = Plain v"
      and "fill_at st (r, c) = None"
  shows "\<exists>st'. compare_cell df_q1 q1_row q2h q1h r st L = Inr st' \<and>
           ((\<exists>rt. value_at st' (r, c) = Rich rt) \<longleftrightarrow>
              fill_at st' (r, c) = Some changed_fill \<and> L \<in> WORD_DIFF_COLUMNS \<and> to_str v \<noteq> []) \<and>
           (fill_at st' (r, c) = Some changed_fill \<and> L \<in> WORD_DIFF_COLUMNS \<and> to_str v \<noteq> [] \<longrightarrow>
              value_at st' (r, c) =
                Rich (word_diff_rt (q1_value df_q1 q1_row q2h q1h L) (to_str v))) \<and>
           length (word_diff_rt (q1_value df_q1 q1_row q2h q1h L) (to_str v))
             = length (split (to_str v)) \<and>
           (\<forall>i<length (split (to_str v)).
              tb_text (word_diff_rt (q1_value df_q1 q1_row q2h q1h L) (to_str v) ! i)
                = split (to_str v) ! i
                    @ (if i + 1 < length (split (to_str v)) then '' '' else []) \<and>
              (tb_font (word_diff_rt (q1_value df_q1 q1_row q2h q1h L) (to_str v) ! i)
                 = InlineFont None \<longleftrightarrow>
               i < length (split (q1_value df_q1 q1_row q2h q1h L)) \<and>
               split (to_str v) ! i = split (q1_value df_q1 q1_row q2h q1h L) ! i) \<and>
              (tb_font (word_diff_rt (q1_value df_q1 q1_row q2h q1h L) (to_str v) ! i)
                 \<noteq> InlineFont None \<longrightarrow>
               tb_font (word_diff_rt (q1_value df_q1 q1_row q2h q1h L) (to_str v) ! i)
                 = InlineFont (Some ''FFFF0000'')))"
proof -
  let ?q1 = "q1_value df_q1 q1_row q2h q1h L"
  let ?st' = "mark_cell st r c L ?q1 (to_str v)"
  have run: "compare_cell df_q1 q1_row q2h q1h r st L = Inr ?st'"
    by (rule compare_cell_Plain [OF assms(1,2)])
  have iff: "(\<exists>rt. value_at ?st' (r, c) = Rich rt) \<longleftrightarrow>
               fill_at ?st' (r, c) = Some changed_fill \<and> L \<in> WORD_DIFF_COLUMNS \<and> to_str v \<noteq> []"
    using assms(2,3) by (auto simp: mark_cell_fill mark_cell_value)
  have val: "fill_at ?st' (r, c) = Some changed_fill \<and> L \<in> WORD_DIFF_COLUMNS \<and> to_str v \<noteq> [] \<longrightarrow>
               value_at ?st' (r, c) = Rich (word_diff_rt ?q1 (to_str v))"
    using assms(3) by (auto simp: mark_cell_fill mark_cell_value split: if_splits)
  have blocks: "\<forall>i<length (split (to_str v)).
              tb_text (word_diff_rt ?q1 (to_str v) ! i)
                = split (to_str v) ! i
                    @ (if i + 1 < length (split (to_str v)) then '' '' else []) \<and>
              (tb_font (word_diff_rt ?q1 (to_str v) ! i) = InlineFont None \<longleftrightarrow>
               i < length (split ?q1) \<and> split (to_str v) ! i = split ?q1 ! i) \<and>
              (tb_font (word_diff_rt ?q1 (to_str v) ! i) \<noteq> InlineFont None \<longrightarrow>
               tb_font (word_diff_rt ?q1 (to_str v) ! i) = InlineFont (Some ''FFFF0000''))"
    by (simp add: word_diff_rt_nth)
  from run iff val blocks show ?thesis
    by (intro exI [of _ ?st']) (simp add: word_diff_rt_length)
qed

lemma ex_changed_q1:
  "q1_value (frame_of_rows ex_q1)
      (ex_row (Some ''1'') (Some ''1001'') (Some ''same'') (Some ''Alpha Beta''))
      [''O'' \<mapsto> ''Status''] [''O'' \<mapsto> ''Status''] ''O'' = ''Alpha Beta''"
  by code_simp

lemma ex_changed_q2: "to_str (Some ''Alpha  Gamma'') = ''Alpha  Gamma''"
  by code_simp

lemma ex_changed_rt:
  "word_diff_rt ''Alpha Beta'' ''Alpha  Gamma'' =
     [TextBlock (InlineFont None) ''Alpha '', TextBlock (InlineFont (Some ''FFFF0000'')) ''Gamma'']"
  by code_simp

theorem word_diff_annotation_witness:
  "column_index_from_string ''O'' = Inr 15 \<and>
   value_at (open_sheet (sheet_of_rows ex_q2)) (2, 15) = Plain (Some ''Alpha  Gamma'') \<and>
   fill_at (open_sheet (sheet_of_rows ex_q2)) (2, 15) = None \<and>
   (\<exists>st'. compare_cell (frame_of_rows ex_q1)
             (ex_row (Some ''1'') (Some ''1001'') (Some ''same'') (Some ''Alpha Beta''))
             [''O'' \<mapsto> ''Status''] [''O'' \<mapsto> ''Status''] 2
             (open_sheet (sheet_of_rows ex_q2)) ''O'' = Inr st' \<and>
          value_at st' (2, 15) =
            Rich [TextBlock (InlineFont None) ''Alpha '',
                  TextBlock (InlineFont (Some ''FFFF0000'')) ''Gamma''])"
proof -
  have h1: "column_index_from_string ''O'' = Inr 15" by code_simp
  have h2: "value_at (open_sheet (sheet_of_rows ex_q2)) (2, 15) = Plain (Some ''Alpha  Gamma'')"
    by code_simp
  have h3: "fill_at (open_sheet (sheet_of_rows ex_q2)) (2, 15) = None"
    by (simp add: open_sheet_def)
  have h4: "''O'' \<in> WORD_DIFF_COLUMNS" by (simp add: WORD_DIFF_COLUMNS_def)
  obtain st' where
    run: "compare_cell (frame_of_rows ex_q1)
             (ex_row (Some ''1'') (Some ''1001'') (Some ''same'') (Some ''Alpha Beta''))
             [''O'' \<mapsto> ''Status''] [''O'' \<mapsto> ''Status''] 2
             (open_sheet (sheet_of_rows ex_q2)) ''O'' = Inr st'"
    and iff: "(\<exists>rt. value_at st' (2, 15) = Rich rt) \<longleftrightarrow>
                fill_at st' (2, 15) = Some changed_fill \<and> ''O'' \<in> WORD_DIFF_COLUMNS \<and>
                ''Alpha  Gamma'' \<noteq> []"
    and val: "fill_at st' (2, 15) = Some changed_fill \<and> ''O'' \<in> WORD_DIFF_COLUMNS \<and>
                ''Alpha  Gamma'' \<noteq> [] \<longrightarrow>
              value_at st' (2, 15) = Rich (word_diff_rt ''Alpha Beta'' ''Alpha  Gamma'')"
    using word_diff_annotation [OF h1 h2 h3, of "frame_of_rows ex_q1"
        "ex_row (Some ''1'') (Some ''1001'') (Some ''same'') (Some ''Alpha Beta'')"
        "[''O'' \<mapsto> ''Status'']" "[''O'' \<mapsto> ''Status'']"]
    unfolding ex_changed_q1 ex_changed_q2 by blast
  have "st' = mark_cell (open_sheet (sheet_of_rows ex_q2)) 2 15 ''O'' ''Alpha Beta''
                ''Alpha  Gamma''"
    using run unfolding compare_cell_Plain [OF h1 h2] ex_changed_q1 ex_changed_q2 by simp
  then have "fill_at st' (2, 15) = Some changed_fill"
    by (simp add: mark_cell_fill)
  with val h4 have "value_at st' (2, 15) = Rich (word_diff_rt ''Alpha Beta'' ''Alpha  Gamma'')"
    by simp
  with run h1 h2 h3 show ?thesis
    by (auto simp: ex_changed_rt)
qed


section \<open>Headers of the two workbooks\<close>

lemma norm_map_find:
  "norm_map cols n = find (\<lambda>c. normalize_colname (Some c) = n) (rev cols)"
proof -
  have "foldl (\<lambda>m c. m(normalize_colname (Some c) \<mapsto> c)) m0 cols n =
          (case find (\<lambda>c. normalize_colname (Some c) = n) (rev cols) of
             None \<Rightarrow> m0 n | Some c \<Rightarrow> Some c)" for m0
    by (induction cols rule: rev_induct) auto
  then show ?thesis by (simp add: norm_map_def split: option.splits)
qed

lemma norm_map_None:
  "norm_map cols n = None \<longleftrightarrow> n \<notin> (\<lambda>c. normalize_colname (Some c)) ` set cols"
  by (auto simp: norm_map_find find_None_iff)

lemma headers_loop_get:
  "headers_loop ws m Ls = Inr q2h \<Longrightarrow>
     (\<forall>L\<in>set Ls. \<exists>c. column_index_from_string L = Inr c \<and>
         q2h L = Some (case ws_cells ws (1, c) of None \<Rightarrow> [] | Some h \<Rightarrow> h)) \<and>
     (\<forall>L. L \<notin> set Ls \<longrightarrow> q2h L = m L)"
proof (induction Ls arbitrary: m)
  case Nil
  then show ?case by simp
next
  case (Cons L Ls)
  from Cons.prems obtain c where c: "column_index_from_string L = Inr c"
    by (auto split: sum.splits)
  let ?m = "m(L \<mapsto> (case ws_cells ws (1, c) of None \<Rightarrow> [] | Some h \<Rightarrow> h))"
  have run: "headers_loop ws ?m Ls = Inr q2h"
    using Cons.prems c by simp
  note IH = Cons.IH [OF run]
  show ?case
  proof (intro conjI ballI allI impI)
    fix L' assume "L' \<in> set (L # Ls)"
    then show "\<exists>c. column_index_from_string L' = Inr c \<and>
         q2h L' = Some (case ws_cells ws (1, c) of None \<Rightarrow> [] | Some h \<Rightarrow> h)"
      using IH c by (cases "L' \<in> set Ls") auto
  next
    fix L' assume "L' \<notin> set (L # Ls)"
    then show "q2h L' = m L'" using IH by auto
  qed
qed

lemma get_headers_for_letters_get:
  assumes "get_headers_for_letters ws letters = Inr q2h" and "L \<in> set letters"
  shows "\<exists>c. column_index_from_string L = Inr c \<and>
           q2h L = Some (case ws_cells ws (1, c) of None \<Rightarrow> [] | Some h \<Rightarrow> h)"
  using headers_loop_get [OF assms(1) [unfolded get_headers_for_letters_def]] assms(2)
  by blast

lemma q1_value_missing:
  assumes "q2h L = Some h" and "h \<notin> set (columns df_q1)"
      and "normalize_colname (Some h) \<notin> (\<lambda>c. normalize_colname (Some c)) ` set (columns df_q1)"
  shows "q1_value df_q1 q1_row q2h (find_matching_headers_in_q1 df_q1 q2h) L = []"
proof -
  have "norm_map (columns df_q1) (normalize_colname (Some h)) = None"
    using assms(3) by (simp add: norm_map_None)
  then have "find_matching_headers_in_q1 df_q1 q2h L = Some h"
    using assms(1,2) by (simp add: find_matching_headers_in_q1_def Let_def)
  then show ?thesis
    using assms(2) by (simp add: q1_value_def Let_def)
qed

text \<open>
  C8. A letter of the selection whose header \<open>h\<close> of the Second workbook is no column
  of the First workbook, neither as it stands nor by its normal form: for every matched
  row the baseline value is the empty text, the cell is compared without an exception,
  it is never Cleared, it is Changed when its current value is non-empty and Unchanged
  when it is empty.
\<close>

theorem missing_baseline_column:
  assumes "get_headers_for_letters ws letters = Inr q2h"
      and "L \<in> set letters"
      and "q2h L = Some h"
      and "h \<notin> set (columns df_q1)"
      and "normalize_colname (Some h) \<notin> (\<lambda>c. normalize_colname (Some c)) ` set (columns df_q1)"
      and "column_index_from_string L = Inr c"
      and "value_at st (r, c) = Plain v"
      and "fill_at st (r, c) = None"
  shows "h = (case ws_cells ws (1, c) of None \<Rightarrow> [] | Some x \<Rightarrow> x) \<and>
         q1_value df_q1 q1_row q2h (find_matching_headers_in_q1 df_q1 q2h) L = [] \<and>
         (\<exists>st'. compare_cell df_q1 q1_row q2h (find_matching_headers_in_q1 df_q1 q2h) r st L
                   = Inr st' \<and>
                fill_at st' (r, c) \<noteq> Some cleared_fill \<and>
                (to_str v \<noteq> [] \<longrightarrow> fill_at st' (r, c) = Some changed_fill) \<and>
                (to_str v = [] \<longrightarrow> fill_at st' (r, c) = None))"
proof -
  have h: "h = (case ws_cells ws (1, c) of None \<Rightarrow> [] | Some x \<Rightarrow> x)"
    using get_headers_for_letters_get [OF assms(1,2)] assms(3,6) by auto
  have q1: "q1_value df_q1 q1_row q2h (find_matching_headers_in_q1 df_q1 q2h) L = []"
    by (rule q1_value_missing [where q2h = q2h and L = L and h = h, OF assms(3,4,5)])
  show ?thesis
    using h q1 assms(8) unfolding compare_cell_Plain [OF assms(6,7)] q1
    by (auto simp: mark_cell_fill)
qed


lemma ex_col_C: "column_index_from_string ''C'' = Inr 3"
  by code_simp

lemma ex_col_O: "column_index_from_string ''O'' = Inr 15"
  by code_simp

lemma ex_hdr_C: "ws_cells (sheet_of_rows ex_q2) (Suc 0, 3) = Some ''Note''"
  by code_simp

lemma ex_hdr_O: "ws_cells (sheet_of_rows ex_q2) (Suc 0, 15) = Some ''Status''"
  by code_simp

lemma ex_headers:
  "get_headers_for_letters (sheet_of_rows ex_q2) [''C'', ''O'']
     = Inr [''C'' \<mapsto> ''Note'', ''O'' \<mapsto> ''Status'']"
  by (simp add: get_headers_for_letters_def ex_col_C ex_col_O ex_hdr_C ex_hdr_O)

theorem missing_baseline_column_witness:
  "get_headers_for_letters (sheet_of_rows ex_q2) [''C'', ''O'']
     = Inr [''C'' \<mapsto> ''Note'', ''O'' \<mapsto> ''Status''] \<and>
   ''Status'' \<notin> set (columns ex_q1_short) \<and>
   normalize_colname (Some ''Status'')
     \<notin> (\<lambda>c. normalize_colname (Some c)) ` set (columns ex_q1_short) \<and>
   column_index_from_string ''O'' = Inr 15 \<and>
   value_at (open_sheet (sheet_of_rows ex_q2)) (2, 15) = Plain (Some ''Alpha  Gamma'') \<and>
   to_str (Some ''Alpha  Gamma'') \<noteq> [] \<and>
   (\<exists>st'. compare_cell ex_q1_short [Some ''1'', Some ''1001'', Some ''same'']
             [''C'' \<mapsto> ''Note'', ''O'' \<mapsto> ''Status'']
             (find_matching_headers_in_q1 ex_q1_short [''C'' \<mapsto> ''Note'', ''O'' \<mapsto> ''Status''])
             2 (open_sheet (sheet_of_rows ex_q2)) ''O'' = Inr st' \<and>
          fill_at st' (2, 15) = Some changed_fill)"
proof -
  have h2: "''O'' \<in> set [''C'', ''O'']" by simp
  have h3: "[''C'' \<mapsto> ''Note'', ''O'' \<mapsto> ''Status''] ''O'' = Some ''Status''" by simp
  have h4: "''Status'' \<notin> set (columns ex_q1_short)" by code_simp
  have h5: "normalize_colname (Some ''Status'')
              \<notin> (\<lambda>c. normalize_colname (Some c)) ` set (columns ex_q1_short)"
    by code_simp
  have h7: "value_at (open_sheet (sheet_of_rows ex_q2)) (2, 15) = Plain (Some ''Alpha  Gamma'')"
    by code_simp
  have h8: "fill_at (open_sheet (sheet_of_rows ex_q2)) (2, 15) = None"
    by (simp add: open_sheet_def)
  have h9: "to_str (Some ''Alpha  Gamma'') \<noteq> []" by code_simp
  have "\<exists>st'. compare_cell ex_q1_short [Some ''1'', Some ''1001'', Some ''same'']
             [''C'' \<mapsto> ''Note'', ''O'' \<mapsto> ''Status'']
             (find_matching_headers_in_q1 ex_q1_short [''C'' \<mapsto> ''Note'', ''O'' \<mapsto> ''Status''])
             2 (open_sheet (sheet_of_rows ex_q2)) ''O'' = Inr st' \<and>
          fill_at st' (2, 15) = Some changed_fill"
    using h9
      missing_baseline_column [OF ex_headers h2 h3 h4 h5 ex_col_O h7 h8,
        where q1_row = "[Some ''1'', Some ''1001'', Some ''same'']"]
    by blast
  with ex_headers h4 h5 ex_col_O h7 h9 show ?thesis
    by blast
qed

subsection \<open>normalize_colname\<close>

lemma set_re_sub_runs:
  "set (re_sub_runs P repl s) \<subseteq> set repl \<union> {x \<in> set s. \<not> P x}"
proof (induction P repl s rule: re_sub_runs.induct)
  case (1 P repl)
  then show ?case by simp
next
  case (2 P repl c cs)
  have "set (dropWhile P cs) \<subseteq> set cs" by (auto dest: set_dropWhileD)
  with 2 show ?case by auto
qed

lemma set_strip_chars: "set (strip_chars P s) \<subseteq> set s"
proof -
  have "set (dropWhile P (rev (dropWhile P s))) \<subseteq> set (rev (dropWhile P s))"
    by (auto dest: set_dropWhileD)
  moreover have "set (dropWhile P s) \<subseteq> set s"
    by (auto dest: set_dropWhileD)
  ultimately show ?thesis by (auto simp: strip_chars_def)
qed

lemma normalize_colname_chars:
  "x \<in> set (normalize_colname (Some h)) \<Longrightarrow> is_lower_alnum x \<or> x = CHR ''_''"
proof -
  assume "x \<in> set (normalize_colname (Some h))"
  then have "x \<in> set (re_sub_runs (\<lambda>c. \<not> is_lower_alnum c) ''_''
                        (lower (strip (re_sub_runs isspace '' '' h))))"
    using set_strip_chars by (fastforce simp: normalize_colname_def Let_def)
  then show ?thesis
    using set_re_sub_runs [of "\<lambda>c. \<not> is_lower_alnum c" "''_''"] by fastforce
qed


section \<open>What stops a run before the rows are scanned\<close>

lemma col_B: "column_index_from_string ''B'' = Inr 2"
  by code_simp

lemma header_from_letter_B:
  "header_from_letter ws ''B'' = Inr (case ws_cells ws (1, 2) of None \<Rightarrow> [] | Some v \<Rightarrow> v)"
  by (simp add: header_from_letter_def col_B)

text \<open>
  C5. With an empty list of column letters the run raises ValueError (the spec's
  ConfigurationError) whatever the workbooks hold: no progress message has been sent, so
  no row has been read, and no worksheet is saved.
\<close>

theorem empty_selection_fails:
  "highlight_q2_changes ws df_q2 df_q1 [] = ([], Inl ValueError) \<and>
   saved (highlight_q2_changes ws df_q2 df_q1 []) = None"
  by (simp add: highlight_q2_changes_def saved_def)

lemma resolve_key_header_find:
  "resolve_key_header df_q1 kh =
     (if kh \<in> set (columns df_q1) then Inr kh
      else (case find (\<lambda>c. normalize_colname (Some c) = normalize_colname (Some kh))
                   (rev (columns df_q1)) of
              None \<Rightarrow> Inl RuntimeError | Some c \<Rightarrow> Inr c))"
  by (simp add: resolve_key_header_def norm_map_find)

lemma resolve_key_header_fails:
  assumes "kh \<notin> set (columns df_q1)"
      and "normalize_colname (Some kh) \<notin> (\<lambda>c. normalize_colname (Some c)) ` set (columns df_q1)"
  shows "resolve_key_header df_q1 kh = Inl RuntimeError"
proof -
  have "norm_map (columns df_q1) (normalize_colname (Some kh)) = None"
    using assms(2) by (simp add: norm_map_None)
  then show ?thesis using assms(1) by (simp add: resolve_key_header_def)
qed

lemma unresolved_key_fails:
  assumes "letters \<noteq> []"
      and "header_from_letter ws ''B'' = Inr kh"
      and "kh = [] \<or> resolve_key_header df_q1 kh = Inl RuntimeError"
  shows "\<exists>log. highlight_q2_changes ws df_q2 df_q1 letters = (log, Inl RuntimeError) \<and>
               Scanning \<notin> set log \<and> Saving \<notin> set log"
  using assms by (auto simp: highlight_q2_changes_def)

text \<open>
  C6. The key header \<open>kh\<close> of the Second workbook resolves to itself when it is a
  column of the First workbook; otherwise to the column of the First workbook with the
  same normal form (the last such column), and to nothing when there is none. A normal
  form consists of lower-case letters, digits and underscores. When the list of letters
  is non-empty and the key header is empty in the Second workbook or resolves to nothing
  in the First, the run raises RuntimeError (the spec's LookupError) before the scan of
  the rows is announced, and no worksheet is saved.
\<close>

theorem key_resolution:
  "(kh \<in> set (columns df_q1) \<longrightarrow> resolve_key_header df_q1 kh = Inr kh) \<and>
   (kh \<notin> set (columns df_q1) \<longrightarrow>
      resolve_key_header df_q1 kh =
        (case find (\<lambda>c. normalize_colname (Some c) = normalize_colname (Some kh))
                (rev (columns df_q1)) of
           None \<Rightarrow> Inl RuntimeError | Some c \<Rightarrow> Inr c)) \<and>
   (\<forall>x\<in>set (normalize_colname (Some kh)). is_lower_alnum x \<or> x = CHR ''_'') \<and>
   (letters \<noteq> [] \<and> header_from_letter ws ''B'' = Inr kh \<and>
    (kh = [] \<or>
     (kh \<notin> set (columns df_q1) \<and>
      normalize_colname (Some kh)
        \<notin> (\<lambda>c. normalize_colname (Some c)) ` set (columns df_q1))) \<longrightarrow>
      (\<exists>log. highlight_q2_changes ws df_q2 df_q1 letters = (log, Inl RuntimeError) \<and>
             Scanning \<notin> set log \<and> Saving \<notin> set log) \<and>
      saved (highlight_q2_changes ws df_q2 df_q1 letters) = None)"
proof -
  have a: "kh \<in> set (columns df_q1) \<longrightarrow> resolve_key_header df_q1 kh = Inr kh"
    by (simp add: resolve_key_header_find)
  have b: "kh \<notin> set (columns df_q1) \<longrightarrow>
      resolve_key_header df_q1 kh =
        (case find (\<lambda>c. normalize_colname (Some c) = normalize_colname (Some kh))
                (rev (columns df_q1)) of
           None \<Rightarrow> Inl RuntimeError | Some c \<Rightarrow> Inr c)"
    by (simp add: resolve_key_header_find)
  have c: "\<forall>x\<in>set (normalize_colname (Some kh)). is_lower_alnum x \<or> x = CHR ''_''"
    using normalize_colname_chars by blast
  have d: "(\<exists>log. highlight_q2_changes ws df_q2 df_q1 letters = (log, Inl RuntimeError) \<and>
             Scanning \<notin> set log \<and> Saving \<notin> set log) \<and>
      saved (highlight_q2_changes ws df_q2 df_q1 letters) = None"
    if h: "letters \<noteq> []" "header_from_letter ws ''B'' = Inr kh"
       "kh = [] \<or>
         (kh \<notin> set (columns df_q1) \<and>
          normalize_colname (Some kh)
            \<notin> (\<lambda>c. normalize_colname (Some c)) ` set (columns df_q1))"
  proof -
    from h(3) have "kh = [] \<or> resolve_key_header df_q1 kh = Inl RuntimeError"
      using resolve_key_header_fails by blast
    from unresolved_key_fails [OF h(1,2) this, of df_q2]
    obtain log where
      "highlight_q2_changes ws df_q2 df_q1 letters = (log, Inl RuntimeError)"
      "Scanning \<notin> set log" "Saving \<notin> set log"
      by blast
    then show ?thesis by (auto simp: saved_def)
  qed
  from a b c d show ?thesis by blast
qed


lemma ex_drift_find:
  "find (\<lambda>c. normalize_colname (Some c) = normalize_colname (Some ''OB Main ID''))
     (rev (columns ex_q1_drift)) = Some ''ob  main id ''"
  by code_simp

lemma ex_header_B: "header_from_letter (sheet_of_rows ex_q2) ''B'' = Inr ''OB Main ID''"
  by code_simp

theorem key_resolution_witness:
  "''OB Main ID'' \<in> set (columns ex_q1_short) \<and>
   resolve_key_header ex_q1_short ''OB Main ID'' = Inr ''OB Main ID'' \<and>
   ''OB Main ID'' \<notin> set (columns ex_q1_drift) \<and>
   resolve_key_header ex_q1_drift ''OB Main ID'' = Inr ''ob  main id '' \<and>
   header_from_letter (sheet_of_rows ex_q2) ''B'' = Inr ''OB Main ID'' \<and>
   ''OB Main ID'' \<notin> set (columns ex_q1_nokey) \<and>
   normalize_colname (Some ''OB Main ID'')
     \<notin> (\<lambda>c. normalize_colname (Some c)) ` set (columns ex_q1_nokey) \<and>
   (\<exists>log. highlight_q2_changes (sheet_of_rows ex_q2) (frame_of_rows ex_q2) ex_q1_nokey [''C'']
            = (log, Inl RuntimeError) \<and>
          Scanning \<notin> set log \<and> Saving \<notin> set log)"
proof -
  have a1: "''OB Main ID'' \<in> set (columns ex_q1_short)" by code_simp
  have a2: "resolve_key_header ex_q1_short ''OB Main ID'' = Inr ''OB Main ID''"
    using a1 key_resolution [of "''OB Main ID''" ex_q1_short] by blast
  have b1: "''OB Main ID'' \<notin> set (columns ex_q1_drift)" by code_simp
  have b2: "resolve_key_header ex_q1_drift ''OB Main ID'' = Inr ''ob  main id ''"
    using b1 key_resolution [of "''OB Main ID''" ex_q1_drift] by (simp add: ex_drift_find)
  have c1: "[''C''] \<noteq> []" by simp
  have c2: "''OB Main ID'' \<notin> set (columns ex_q1_nokey)" by code_simp
  have c3: "normalize_colname (Some ''OB Main ID'')
              \<notin> (\<lambda>c. normalize_colname (Some c)) ` set (columns ex_q1_nokey)"
    by code_simp
  have c4: "\<exists>log. highlight_q2_changes (sheet_of_rows ex_q2) (frame_of_rows ex_q2) ex_q1_nokey
                    [''C''] = (log, Inl RuntimeError) \<and>
                  Scanning \<notin> set log \<and> Saving \<notin> set log"
    using c1 c2 c3 ex_header_B
      key_resolution [of "''OB Main ID''" ex_q1_nokey "[''C'']" "sheet_of_rows ex_q2"
        "frame_of_rows ex_q2"]
    by blast
  from a1 a2 b1 b2 ex_header_B c2 c3 c4 show ?thesis by blast
qed


section \<open>What a run writes\<close>

subsection \<open>What one step writes\<close>

lemma set_fill_fill: "fill_at (set_fill st r c f) p = (if p = (r, c) then Some f else fill_at st p)"
  by (simp add: set_fill_def)

lemma set_fill_value: "value_at (set_fill st r c f) = value_at st"
  by (simp add: set_fill_def)

lemma fold_set_fill_fill:
  "fill_at (foldl (\<lambda>s c. set_fill s r c f) st cs) p =
     (if fst p = r \<and> snd p \<in> set cs then Some f else fill_at st p)"
  by (induction cs arbitrary: st) (auto simp: set_fill_fill)

lemma fold_set_fill_value: "value_at (foldl (\<lambda>s c. set_fill s r c f) st cs) = value_at st"
  by (induction cs arbitrary: st) (auto simp: set_fill_value)

lemma fill_row_fill:
  "fill_at (fill_row st r m) (r', c) =
     (if r' = r \<and> 1 \<le> c \<and> c \<le> m then Some newrow_fill else fill_at st (r', c))"
  by (auto simp: fill_row_def fold_set_fill_fill)

lemma fill_row_value: "value_at (fill_row st r m) = value_at st"
  by (simp add: fill_row_def fold_set_fill_value)

lemma compare_cell_effect:
  assumes "compare_cell df_q1 q1_row q2h q1h r st L = Inr st'"
  shows "\<exists>c. column_index_from_string L = Inr c \<and>
           (\<forall>p. p \<noteq> (r, c) \<longrightarrow> fill_at st' p = fill_at st p \<and> value_at st' p = value_at st p) \<and>
           fill_at st' (r, c) \<in> {fill_at st (r, c), Some changed_fill, Some cleared_fill} \<and>
           (value_at st' (r, c) = value_at st (r, c) \<or>
            L \<in> WORD_DIFF_COLUMNS \<and> (\<exists>rt. value_at st' (r, c) = Rich rt))"
proof -
  from assms obtain c q2_val where c: "column_index_from_string L = Inr c"
    and st': "st' = mark_cell st r c L (q1_value df_q1 q1_row q2h q1h L) q2_val"
    by (auto simp: compare_cell_def split: sum.splits)
  show ?thesis
    unfolding st' using c by (auto simp: mark_cell_fill mark_cell_value)
qed

lemma compare_columns_effect:
  assumes "compare_columns df_q1 q1_row q2h q1h r st Ls = Inr st'"
  shows "(\<forall>p. fst p \<noteq> r \<longrightarrow> fill_at st' p = fill_at st p \<and> value_at st' p = value_at st p) \<and>
         (\<forall>p. fill_at st' p \<in> {fill_at st p, Some changed_fill, Some cleared_fill}) \<and>
         (\<forall>p. value_at st' p = value_at st p \<or>
              fst p = r \<and>
              (\<exists>L\<in>set Ls. L \<in> WORD_DIFF_COLUMNS \<and> column_index_from_string L = Inr (snd p)) \<and>
              (\<exists>rt. value_at st' p = Rich rt))"
  using assms
proof (induction Ls arbitrary: st)
  case Nil
  then show ?case by simp
next
  case (Cons L Ls)
  from Cons.prems obtain st1 where
    step: "compare_cell df_q1 q1_row q2h q1h r st L = Inr st1" and
    rest: "compare_columns df_q1 q1_row q2h q1h r st1 Ls = Inr st'"
    by (auto split: sum.splits)
  from compare_cell_effect [OF step] obtain c where
    c: "column_index_from_string L = Inr c" and
    other: "\<And>p. p \<noteq> (r, c) \<Longrightarrow> fill_at st1 p = fill_at st p \<and> value_at st1 p = value_at st p" and
    fill: "fill_at st1 (r, c) \<in> {fill_at st (r, c), Some changed_fill, Some cleared_fill}" and
    val: "value_at st1 (r, c) = value_at st (r, c) \<or>
            L \<in> WORD_DIFF_COLUMNS \<and> (\<exists>rt. value_at st1 (r, c) = Rich rt)"
    by blast
  from Cons.IH [OF rest] have
    IH1: "\<And>p. fst p \<noteq> r \<Longrightarrow> fill_at st' p = fill_at st1 p \<and> value_at st' p = value_at st1 p" and
    IH2: "\<And>p. fill_at st' p \<in> {fill_at st1 p, Some changed_fill, Some cleared_fill}" and
    IH3: "\<And>p. value_at st' p = value_at st1 p \<or>
              fst p = r \<and>
              (\<exists>L'\<in>set Ls. L' \<in> WORD_DIFF_COLUMNS \<and>
                  column_index_from_string L' = Inr (snd p)) \<and>
              (\<exists>rt. value_at st' p = Rich rt)"
    by blast+
  have a: "fill_at st' p = fill_at st p \<and> value_at st' p = value_at st p" if "fst p \<noteq> r" for p
  proof -
    from that have "p \<noteq> (r, c)" by auto
    from other [OF this] IH1 [OF that] show ?thesis by simp
  qed
  have b: "fill_at st' p \<in> {fill_at st p, Some changed_fill, Some cleared_fill}" for p
  proof (cases "p = (r, c)")
    case True
    from fill IH2 [of p] show ?thesis unfolding True by auto
  next
    case False
    from other [OF False] IH2 [of p] show ?thesis by auto
  qed
  have d: "value_at st' p = value_at st p \<or>
              fst p = r \<and>
              (\<exists>L'\<in>set (L # Ls). L' \<in> WORD_DIFF_COLUMNS \<and>
                  column_index_from_string L' = Inr (snd p)) \<and>
              (\<exists>rt. value_at st' p = Rich rt)" for p
  proof (cases "p = (r, c)")
    case True
    from val c IH3 [of p] show ?thesis unfolding True by auto
  next
    case False
    from other [OF False] IH3 [of p] show ?thesis by auto
  qed
  from a b d show ?case by blast
qed


lemma process_row_effect:
  assumes "process_row df_q2 kh2 lookup df_q1 q2h q1h letters max_col st r = Inr st'"
  shows "(\<forall>p. fst p \<noteq> r \<longrightarrow> fill_at st' p = fill_at st p \<and> value_at st' p = value_at st p) \<and>
         (\<forall>p. value_at st' p = value_at st p \<or>
              fst p = r \<and> 2 \<le> r \<and> r - 2 < length (rows df_q2) \<and>
              (\<exists>L\<in>set letters. L \<in> WORD_DIFF_COLUMNS \<and>
                  column_index_from_string L = Inr (snd p)) \<and>
              (\<exists>rt. value_at st' p = Rich rt))"
proof (cases "0 \<le> int r - 2 \<and> int r - 2 < int (length (rows df_q2))")
  case False
  with assms have "st' = st" by (simp add: process_row_def Let_def)
  then show ?thesis by simp
next
  case True
  then have range: "2 \<le> r \<and> r - 2 < length (rows df_q2)" by auto
  let ?key = "key_val_at df_q2 kh2 (nat (int r - 2))"
  show ?thesis
  proof (cases "lookup ?key")
    case None
    with assms True have "st' = fill_row st r max_col \<or> st' = st"
      by (auto simp: process_row_def Let_def split: if_splits)
    then show ?thesis
      by (auto simp: fill_row_fill fill_row_value)
  next
    case (Some q1_row)
    with assms True have "compare_columns df_q1 q1_row q2h q1h r st letters = Inr st'"
      by (simp add: process_row_def Let_def)
    from compare_columns_effect [OF this] range show ?thesis by blast
  qed
qed

lemma scan_rows_effect:
  assumes "scan_rows df_q2 kh2 lookup df_q1 q2h q1h letters max_col st rs = Inr out"
  shows "(\<forall>p. fst p \<notin> set rs \<longrightarrow> fill_at out p = fill_at st p \<and> value_at out p = value_at st p) \<and>
         (\<forall>p. value_at out p = value_at st p \<or>
              fst p \<in> set rs \<and> 2 \<le> fst p \<and> fst p - 2 < length (rows df_q2) \<and>
              (\<exists>L\<in>set letters. L \<in> WORD_DIFF_COLUMNS \<and>
                  column_index_from_string L = Inr (snd p)) \<and>
              (\<exists>rt. value_at out p = Rich rt))"
  using assms
proof (induction rs arbitrary: st)
  case Nil
  then show ?case by simp
next
  case (Cons r rs)
  from Cons.prems obtain st1 where
    step: "process_row df_q2 kh2 lookup df_q1 q2h q1h letters max_col st r = Inr st1" and
    rest: "scan_rows df_q2 kh2 lookup df_q1 q2h q1h letters max_col st1 rs = Inr out"
    by (auto split: sum.splits)
  from process_row_effect [OF step] have
    S1: "\<And>p. fst p \<noteq> r \<Longrightarrow> fill_at st1 p = fill_at st p \<and> value_at st1 p = value_at st p" and
    S2: "\<And>p. value_at st1 p = value_at st p \<or>
              fst p = r \<and> 2 \<le> r \<and> r - 2 < length (rows df_q2) \<and>
              (\<exists>L\<in>set letters. L \<in> WORD_DIFF_COLUMNS \<and>
                  column_index_from_string L = Inr (snd p)) \<and>
              (\<exists>rt. value_at st1 p = Rich rt)"
    by blast+
  from Cons.IH [OF rest] have
    IH1: "\<And>p. fst p \<notin> set rs \<Longrightarrow> fill_at out p = fill_at st1 p \<and> value_at out p = value_at st1 p" and
    IH2: "\<And>p. value_at out p = value_at st1 p \<or>
              fst p \<in> set rs \<and> 2 \<le> fst p \<and> fst p - 2 < length (rows df_q2) \<and>
              (\<exists>L\<in>set letters. L \<in> WORD_DIFF_COLUMNS \<and>
                  column_index_from_string L = Inr (snd p)) \<and>
              (\<exists>rt. value_at out p = Rich rt)"
    by blast+
  have a: "fill_at out p = fill_at st p \<and> value_at out p = value_at st p"
    if "fst p \<notin> set (r # rs)" for p
    using that S1 [of p] IH1 [of p] by simp
  have b: "value_at out p = value_at st p \<or>
              fst p \<in> set (r # rs) \<and> 2 \<le> fst p \<and> fst p - 2 < length (rows df_q2) \<and>
              (\<exists>L\<in>set letters. L \<in> WORD_DIFF_COLUMNS \<and>
                  column_index_from_string L = Inr (snd p)) \<and>
              (\<exists>rt. value_at out p = Rich rt)" for p
    using S2 [of p] IH2 [of p] by auto
  from a b show ?case by blast
qed

subsection \<open>Rows do not depend on each other\<close>

lemma same_row_refl: "same_row r st st"
  by (simp add: same_row_def)

lemma same_row_sym: "same_row r a b \<Longrightarrow> same_row r b a"
  by (simp add: same_row_def)

lemma same_row_trans: "same_row r a b \<Longrightarrow> same_row r b c \<Longrightarrow> same_row r a c"
  by (simp add: same_row_def)

lemma mark_cell_local:
  "same_row r st st2 \<Longrightarrow> same_row r (mark_cell st r c L q1 q2) (mark_cell st2 r c L q1 q2)"
  by (simp add: same_row_def mark_cell_fill mark_cell_value)

lemma compare_cell_local:
  assumes "same_row r st st2"
      and "compare_cell df_q1 q1_row q2h q1h r st L = Inr s"
  shows "\<exists>s2. compare_cell df_q1 q1_row q2h q1h r st2 L = Inr s2 \<and> same_row r s s2"
proof -
  from assms(2) obtain c q2_val where c: "column_index_from_string L = Inr c"
    and v: "cell_to_str (value_at st (r, c)) = Inr q2_val"
    and s: "s = mark_cell st r c L (q1_value df_q1 q1_row q2h q1h L) q2_val"
    by (auto simp: compare_cell_def split: sum.splits)
  from assms(1) have "value_at st2 (r, c) = value_at st (r, c)"
    by (simp add: same_row_def)
  with c v have "compare_cell df_q1 q1_row q2h q1h r st2 L =
                   Inr (mark_cell st2 r c L (q1_value df_q1 q1_row q2h q1h L) q2_val)"
    by (simp add: compare_cell_def)
  with s mark_cell_local [OF assms(1)] show ?thesis by blast
qed

lemma compare_columns_local:
  assumes "same_row r st st2"
      and "compare_columns df_q1 q1_row q2h q1h r st Ls = Inr s"
  shows "\<exists>s2. compare_columns df_q1 q1_row q2h q1h r st2 Ls = Inr s2 \<and> same_row r s s2"
  using assms
proof (induction Ls arbitrary: st st2)
  case Nil
  then show ?case by simp
next
  case (Cons L Ls)
  from Cons.prems(2) obtain st1 where
    step: "compare_cell df_q1 q1_row q2h q1h r st L = Inr st1" and
    rest: "compare_columns df_q1 q1_row q2h q1h r st1 Ls = Inr s"
    by (auto split: sum.splits)
  from compare_cell_local [OF Cons.prems(1) step] obtain st1' where
    step': "compare_cell df_q1 q1_row q2h q1h r st2 L = Inr st1'" and same: "same_row r st1 st1'"
    by blast
  from Cons.IH [OF same rest] step' show ?case by simp
qed

lemma fill_row_local:
  "same_row r st st2 \<Longrightarrow> same_row r (fill_row st r m) (fill_row st2 r m)"
  by (simp add: same_row_def fill_row_fill fill_row_value)

lemma process_row_local:
  assumes "same_row r st st2"
      and "process_row df_q2 kh2 lookup df_q1 q2h q1h letters max_col st r = Inr s"
  shows "\<exists>s2. process_row df_q2 kh2 lookup df_q1 q2h q1h letters max_col st2 r = Inr s2 \<and>
              same_row r s s2"
proof (cases "0 \<le> int r - 2 \<and> int r - 2 < int (length (rows df_q2))")
  case False
  with assms show ?thesis by (simp add: process_row_def Let_def)
next
  case True
  let ?key = "key_val_at df_q2 kh2 (nat (int r - 2))"
  show ?thesis
  proof (cases "lookup ?key")
    case None
    show ?thesis
    proof (cases "?key = []")
      case True
      with None assms \<open>0 \<le> int r - 2 \<and> int r - 2 < int (length (rows df_q2))\<close>
      show ?thesis by (simp add: process_row_def Let_def)
    next
      case False
      with None assms \<open>0 \<le> int r - 2 \<and> int r - 2 < int (length (rows df_q2))\<close>
      show ?thesis by (auto simp: process_row_def Let_def fill_row_local)
    qed
  next
    case (Some q1_row)
    with assms(2) True have "compare_columns df_q1 q1_row q2h q1h r st letters = Inr s"
      by (simp add: process_row_def Let_def)
    from compare_columns_local [OF assms(1) this] Some True show ?thesis
      by (simp add: process_row_def Let_def)
  qed
qed

lemma scan_rows_row:
  assumes "scan_rows df_q2 kh2 lookup df_q1 q2h q1h letters max_col st rs = Inr out"
      and "distinct rs" and "r \<in> set rs"
  shows "\<exists>st_r. process_row df_q2 kh2 lookup df_q1 q2h q1h letters max_col st r = Inr st_r \<and>
                same_row r st_r out"
  using assms
proof (induction rs arbitrary: st)
  case Nil
  then show ?case by simp
next
  case (Cons a rs)
  from Cons.prems(1) obtain st1 where
    step: "process_row df_q2 kh2 lookup df_q1 q2h q1h letters max_col st a = Inr st1" and
    rest: "scan_rows df_q2 kh2 lookup df_q1 q2h q1h letters max_col st1 rs = Inr out"
    by (auto split: sum.splits)
  show ?case
  proof (cases "a = r")
    case True
    with Cons.prems(2) have "r \<notin> set rs" by simp
    with scan_rows_effect [OF rest] have "same_row r st1 out"
      by (simp add: same_row_def)
    with step True show ?thesis by blast
  next
    case False
    with Cons.prems have "distinct rs" "r \<in> set rs" by auto
    from Cons.IH [OF rest this] obtain s where
      s: "process_row df_q2 kh2 lookup df_q1 q2h q1h letters max_col st1 r = Inr s" and
      so: "same_row r s out"
      by blast
    from process_row_effect [OF step] False have "same_row r st1 st"
      by (simp add: same_row_def)
    from process_row_local [OF this s] obtain s' where
      "process_row df_q2 kh2 lookup df_q1 q2h q1h letters max_col st r = Inr s'"
      "same_row r s s'"
      by blast
    with so show ?thesis
      by (meson same_row_sym same_row_trans)
  qed
qed

subsection \<open>A whole run\<close>

lemma run_scan:
  assumes "highlight_q2_changes ws df_q2 df_q1 letters = (log, Inr (kh1, kh2, out))"
  shows "\<exists>q2h. get_headers_for_letters ws letters = Inr q2h \<and>
           scan_rows df_q2 kh2 (build_lookup df_q1 kh1) df_q1 q2h
             (find_matching_headers_in_q1 df_q1 q2h) letters (max_column ws)
             (open_sheet ws) [2..<max_row ws + 1] = Inr out"
  using assms
  by (auto simp: highlight_q2_changes_def Let_def split: if_splits sum.splits)

lemma run_row:
  assumes "highlight_q2_changes ws df_q2 df_q1 letters = (log, Inr (kh1, kh2, out))"
      and "2 \<le> r" and "r \<le> max_row ws"
  shows "\<exists>q2h st_r. get_headers_for_letters ws letters = Inr q2h \<and>
           process_row df_q2 kh2 (build_lookup df_q1 kh1) df_q1 q2h
             (find_matching_headers_in_q1 df_q1 q2h) letters (max_column ws)
             (open_sheet ws) r = Inr st_r \<and>
           same_row r st_r out"
proof -
  from run_scan [OF assms(1)] obtain q2h where
    h: "get_headers_for_letters ws letters = Inr q2h" and
    scan: "scan_rows df_q2 kh2 (build_lookup df_q1 kh1) df_q1 q2h
             (find_matching_headers_in_q1 df_q1 q2h) letters (max_column ws)
             (open_sheet ws) [2..<max_row ws + 1] = Inr out"
    by blast
  have "distinct [2..<max_row ws + 1]" "r \<in> set [2..<max_row ws + 1]"
    using assms(2,3) by auto
  from scan_rows_row [OF scan this] h show ?thesis by blast
qed

lemma open_sheet_fill: "fill_at (open_sheet ws) p = None"
  by (simp add: open_sheet_def)

lemma open_sheet_value: "value_at (open_sheet ws) p = Plain (ws_cells ws p)"
  by (simp add: open_sheet_def)

lemma same_row_fill: "same_row r a b \<Longrightarrow> fill_at b (r, c) = fill_at a (r, c)"
  by (simp add: same_row_def)

lemma same_row_value: "same_row r a b \<Longrightarrow> value_at b (r, c) = value_at a (r, c)"
  by (simp add: same_row_def)

lemma build_lookup_no_empty_key: "build_lookup df h [] = None"
  by (simp add: build_lookup_find)

lemma process_row_in_range:
  assumes "2 \<le> r" and "r - 2 < length (rows df_q2)"
  shows "process_row df_q2 kh2 lookup df_q1 q2h q1h letters max_col st r =
           (if key_val_at df_q2 kh2 (r - 2) \<noteq> [] \<and> lookup (key_val_at df_q2 kh2 (r - 2)) = None
            then Inr (fill_row st r max_col)
            else (case lookup (key_val_at df_q2 kh2 (r - 2)) of
                    Some q1_row \<Rightarrow> compare_columns df_q1 q1_row q2h q1h r st letters
                  | None \<Rightarrow> Inr st))"
proof -
  from assms have "0 \<le> int r - 2 \<and> int r - 2 < int (length (rows df_q2))" by auto
  moreover from assms have "nat (int r - 2) = r - 2" by auto
  ultimately show ?thesis by (simp add: process_row_def Let_def)
qed

text \<open>
  C2. A run that saves a worksheet, and a row \<open>r\<close> of the Second workbook that the
  loop reaches (\<open>2 \<le> r \<le> max_row\<close>, with a row of the frame behind it). When the
  trimmed key of the row is non-empty and absent from the baseline index, every cell of
  the row up to \<open>max_column\<close> has \<open>newrow_fill\<close> (NewRow), no cell of the row has any
  other fill, and no value of the row is rewritten: no selected column is classified.
  In every other case no cell of the row has \<open>newrow_fill\<close>.
\<close>

theorem new_row:
  assumes "highlight_q2_changes ws df_q2 df_q1 letters = (log, Inr (kh1, kh2, out))"
      and "2 \<le> r" and "r \<le> max_row ws" and "r - 2 < length (rows df_q2)"
  shows "(key_val_at df_q2 kh2 (r - 2) \<noteq> [] \<and>
          build_lookup df_q1 kh1 (key_val_at df_q2 kh2 (r - 2)) = None \<longrightarrow>
            (\<forall>c. fill_at out (r, c) =
                   (if 1 \<le> c \<and> c \<le> max_column ws then Some newrow_fill else None)) \<and>
            (\<forall>c. value_at out (r, c) = Plain (ws_cells ws (r, c)))) \<and>
         (\<not> (key_val_at df_q2 kh2 (r - 2) \<noteq> [] \<and>
             build_lookup df_q1 kh1 (key_val_at df_q2 kh2 (r - 2)) = None) \<longrightarrow>
            (\<forall>c. fill_at out (r, c) \<noteq> Some newrow_fill))"
proof -
  let ?key = "key_val_at df_q2 kh2 (r - 2)"
  let ?lookup = "build_lookup df_q1 kh1"
  from run_row [OF assms(1,2,3)] obtain q2h st_r where
    step: "process_row df_q2 kh2 ?lookup df_q1 q2h
             (find_matching_headers_in_q1 df_q1 q2h) letters (max_column ws)
             (open_sheet ws) r = Inr st_r" and
    same: "same_row r st_r out"
    by blast
  note step' = step [unfolded process_row_in_range [OF assms(2,4)]]
  have new: "(\<forall>c. fill_at out (r, c) =
                   (if 1 \<le> c \<and> c \<le> max_column ws then Some newrow_fill else None)) \<and>
            (\<forall>c. value_at out (r, c) = Plain (ws_cells ws (r, c)))"
    if "?key \<noteq> [] \<and> ?lookup ?key = None"
  proof -
    from step' that have "st_r = fill_row (open_sheet ws) r (max_column ws)" by simp
    then show ?thesis
      by (simp add: same_row_fill [OF same] same_row_value [OF same]
            fill_row_fill fill_row_value open_sheet_fill open_sheet_value)
  qed
  have old: "fill_at out (r, c) \<noteq> Some newrow_fill"
    if n: "\<not> (?key \<noteq> [] \<and> ?lookup ?key = None)" for c
  proof (cases "?lookup ?key")
    case None
    with step' n have "st_r = open_sheet ws" by simp
    then show ?thesis by (simp add: same_row_fill [OF same] open_sheet_fill)
  next
    case (Some q1_row)
    with step' n have "compare_columns df_q1 q1_row q2h
        (find_matching_headers_in_q1 df_q1 q2h) r (open_sheet ws) letters = Inr st_r"
      by simp
    from compare_columns_effect [OF this]
    have "fill_at st_r (r, c) \<in> {fill_at (open_sheet ws) (r, c), Some changed_fill, Some cleared_fill}"
      by blast
    then have "fill_at st_r (r, c) \<noteq> Some newrow_fill"
      by (auto simp: open_sheet_fill)
    then show ?thesis by (simp add: same_row_fill [OF same])
  qed
  from new old show ?thesis by blast
qed

subsection \<open>The example run\<close>

lemma ex_run_log: "fst ex_run = [Loading, Reading, Indexing, Scanning, Saving]"
  by code_simp

lemma ex_run_keys:
  "(case snd ex_run of Inl e \<Rightarrow> False
    | Inr (k1, k2, st) \<Rightarrow> k1 = ''OB Main ID'' \<and> k2 = ''OB Main ID'')"
  by code_simp

lemma ex_run_result:
  "\<exists>out. highlight_q2_changes (sheet_of_rows ex_q2) (frame_of_rows ex_q2) (frame_of_rows ex_q1)
            [''C'', ''O'']
          = ([Loading, Reading, Indexing, Scanning, Saving],
             Inr (''OB Main ID'', ''OB Main ID'', out))"
proof -
  obtain log res where r: "ex_run = (log, res)" by (cases ex_run)
  have "log = [Loading, Reading, Indexing, Scanning, Saving]"
    using ex_run_log unfolding r by simp
  moreover obtain out where "res = Inr (''OB Main ID'', ''OB Main ID'', out)"
    using ex_run_keys unfolding r by (cases res) auto
  ultimately show ?thesis using r by (auto simp: ex_run_def)
qed

lemma ex_dims:
  "max_row (sheet_of_rows ex_q2) = 5" "max_column (sheet_of_rows ex_q2) = 15"
  "length (rows (frame_of_rows ex_q2)) = 4"
  by code_simp+

lemma ex_key_new: "key_val_at (frame_of_rows ex_q2) ''OB Main ID'' 3 = ''2002''"
  by code_simp

lemma ex_key_new_absent: "build_lookup (frame_of_rows ex_q1) ''OB Main ID'' ''2002'' = None"
  by code_simp

lemma ex_key_empty: "key_val_at (frame_of_rows ex_q2) ''OB Main ID'' 2 = []"
  by code_simp

lemma ex_key_matched: "key_val_at (frame_of_rows ex_q2) ''OB Main ID'' 0 = ''1001''"
  by code_simp

lemma ex_key_matched_row:
  "build_lookup (frame_of_rows ex_q1) ''OB Main ID'' ''1001''
     = Some (ex_row (Some ''1'') (Some ''1001'') (Some ''same'') (Some ''Alpha Beta''))"
  by code_simp

lemma ex_cell_5_3: "ws_cells (sheet_of_rows ex_q2) (5, 3) = Some ''New''"
  by code_simp

theorem new_row_witness:
  "\<exists>out. highlight_q2_changes (sheet_of_rows ex_q2) (frame_of_rows ex_q2) (frame_of_rows ex_q1)
            [''C'', ''O'']
          = ([Loading, Reading, Indexing, Scanning, Saving],
             Inr (''OB Main ID'', ''OB Main ID'', out)) \<and>
         5 \<le> max_row (sheet_of_rows ex_q2) \<and>
         5 - 2 < length (rows (frame_of_rows ex_q2)) \<and>
         key_val_at (frame_of_rows ex_q2) ''OB Main ID'' (5 - 2) = ''2002'' \<and>
         build_lookup (frame_of_rows ex_q1) ''OB Main ID'' ''2002'' = None \<and>
         fill_at out (5, 3) = Some newrow_fill \<and>
         fill_at out (5, 16) = None \<and>
         value_at out (5, 3) = Plain (Some ''New'')"
proof -
  from ex_run_result obtain out where
    run: "highlight_q2_changes (sheet_of_rows ex_q2) (frame_of_rows ex_q2) (frame_of_rows ex_q1)
            [''C'', ''O'']
          = ([Loading, Reading, Indexing, Scanning, Saving],
             Inr (''OB Main ID'', ''OB Main ID'', out))"
    by blast
  have r1: "(2::nat) \<le> 5" by simp
  have r2: "5 \<le> max_row (sheet_of_rows ex_q2)" by (simp add: ex_dims)
  have r3: "5 - 2 < length (rows (frame_of_rows ex_q2))" by (simp add: ex_dims)
  have k: "key_val_at (frame_of_rows ex_q2) ''OB Main ID'' (5 - 2) = ''2002''"
    using ex_key_new by simp
  from new_row [OF run r1 r2 r3] k ex_key_new_absent
  have "(\<forall>c. fill_at out (5, c) =
               (if 1 \<le> c \<and> c \<le> max_column (sheet_of_rows ex_q2) then Some newrow_fill else None)) \<and>
        (\<forall>c. value_at out (5, c) = Plain (ws_cells (sheet_of_rows ex_q2) (5, c)))"
    by simp
  then have "fill_at out (5, 3) = Some newrow_fill" "fill_at out (5, 16) = None"
    "value_at out (5, 3) = Plain (Some ''New'')"
    by (simp_all add: ex_dims ex_cell_5_3)
  with run r2 r3 k ex_key_new_absent show ?thesis by blast
qed

subsection \<open>Every row, and every value\<close>

lemma process_row_out_of_range:
  assumes "\<not> (2 \<le> r \<and> r - 2 < length (rows df_q2))"
  shows "process_row df_q2 kh2 lookup df_q1 q2h q1h letters max_col st r = Inr st"
proof -
  from assms have "\<not> (0 \<le> int r - 2 \<and> int r - 2 < int (length (rows df_q2)))" by auto
  then show ?thesis by (simp add: process_row_def Let_def)
qed

lemma run_row_outside:
  assumes "highlight_q2_changes ws df_q2 df_q1 letters = (log, Inr (kh1, kh2, out))"
      and "\<not> (2 \<le> r \<and> r \<le> max_row ws \<and> r - 2 < length (rows df_q2))"
  shows "same_row r (open_sheet ws) out"
proof (cases "2 \<le> r \<and> r \<le> max_row ws")
  case True
  from run_row [OF assms(1)] True obtain q2h st_r where
    step: "process_row df_q2 kh2 (build_lookup df_q1 kh1) df_q1 q2h
             (find_matching_headers_in_q1 df_q1 q2h) letters (max_column ws)
             (open_sheet ws) r = Inr st_r" and
    same: "same_row r st_r out"
    by blast
  from True assms(2) have "\<not> (2 \<le> r \<and> r - 2 < length (rows df_q2))" by simp
  from step [unfolded process_row_out_of_range [OF this]] same show ?thesis by simp
next
  case False
  then have "r \<notin> set [2..<max_row ws + 1]" by auto
  moreover from run_scan [OF assms(1)] obtain q2h where
    "scan_rows df_q2 kh2 (build_lookup df_q1 kh1) df_q1 q2h
       (find_matching_headers_in_q1 df_q1 q2h) letters (max_column ws)
       (open_sheet ws) [2..<max_row ws + 1] = Inr out"
    by blast
  ultimately show ?thesis
    using scan_rows_effect by (fastforce simp: same_row_def)
qed

text \<open>
  C3, as the code has it. A run that saves a worksheet handles every row in exactly one
  of these ways, told apart by the trimmed key of the row. A row that the loop reaches:
  key non-empty and absent from the baseline index, the row is filled as a new row; key
  present in the baseline index (then it is non-empty), the row is what the loop over
  the selected letters makes of it, cell by cell; key empty (then it is not in the
  index), the row is left as it was loaded, without any classification. A row that the
  loop does not reach is left as it was loaded.
\<close>

theorem every_row_one_way:
  assumes "highlight_q2_changes ws df_q2 df_q1 letters = (log, Inr (kh1, kh2, out))"
  shows "(2 \<le> r \<and> r \<le> max_row ws \<and> r - 2 < length (rows df_q2) \<longrightarrow>
            (key_val_at df_q2 kh2 (r - 2) \<noteq> [] \<and>
             build_lookup df_q1 kh1 (key_val_at df_q2 kh2 (r - 2)) = None \<longrightarrow>
               same_row r (fill_row (open_sheet ws) r (max_column ws)) out) \<and>
            (\<forall>q1_row. build_lookup df_q1 kh1 (key_val_at df_q2 kh2 (r - 2)) = Some q1_row \<longrightarrow>
               key_val_at df_q2 kh2 (r - 2) \<noteq> [] \<and>
               (\<exists>q2h st_r. get_headers_for_letters ws letters = Inr q2h \<and>
                  compare_columns df_q1 q1_row q2h (find_matching_headers_in_q1 df_q1 q2h) r
                    (open_sheet ws) letters = Inr st_r \<and>
                  same_row r st_r out)) \<and>
            (key_val_at df_q2 kh2 (r - 2) = [] \<longrightarrow>
               build_lookup df_q1 kh1 (key_val_at df_q2 kh2 (r - 2)) = None \<and>
               same_row r (open_sheet ws) out)) \<and>
         (\<not> (2 \<le> r \<and> r \<le> max_row ws \<and> r - 2 < length (rows df_q2)) \<longrightarrow>
            same_row r (open_sheet ws) out)"
proof -
  let ?key = "key_val_at df_q2 kh2 (r - 2)"
  let ?lookup = "build_lookup df_q1 kh1"
  have inside:
    "(?key \<noteq> [] \<and> ?lookup ?key = None \<longrightarrow>
        same_row r (fill_row (open_sheet ws) r (max_column ws)) out) \<and>
     (\<forall>q1_row. ?lookup ?key = Some q1_row \<longrightarrow>
        ?key \<noteq> [] \<and>
        (\<exists>q2h st_r. get_headers_for_letters ws letters = Inr q2h \<and>
           compare_columns df_q1 q1_row q2h (find_matching_headers_in_q1 df_q1 q2h) r
             (open_sheet ws) letters = Inr st_r \<and>
           same_row r st_r out)) \<and>
     (?key = [] \<longrightarrow> ?lookup ?key = None \<and> same_row r (open_sheet ws) out)"
    if range: "2 \<le> r" "r \<le> max_row ws" "r - 2 < length (rows df_q2)"
  proof -
    from run_row [OF assms range(1,2)] obtain q2h st_r where
      hdr: "get_headers_for_letters ws letters = Inr q2h" and
      step: "process_row df_q2 kh2 ?lookup df_q1 q2h
               (find_matching_headers_in_q1 df_q1 q2h) letters (max_column ws)
               (open_sheet ws) r = Inr st_r" and
      same: "same_row r st_r out"
      by blast
    note step' = step [unfolded process_row_in_range [OF range(1,3)]]
    have a: "same_row r (fill_row (open_sheet ws) r (max_column ws)) out"
      if "?key \<noteq> [] \<and> ?lookup ?key = None"
      using step' that same by simp
    have b: "?key \<noteq> [] \<and>
        (\<exists>q2h st_r. get_headers_for_letters ws letters = Inr q2h \<and>
           compare_columns df_q1 q1_row q2h (find_matching_headers_in_q1 df_q1 q2h) r
             (open_sheet ws) letters = Inr st_r \<and>
           same_row r st_r out)"
      if s: "?lookup ?key = Some q1_row" for q1_row
    proof -
      from s have ne: "?key \<noteq> []"
        using build_lookup_no_empty_key [of df_q1 kh1] by auto
      from step' s have "compare_columns df_q1 q1_row q2h
          (find_matching_headers_in_q1 df_q1 q2h) r (open_sheet ws) letters = Inr st_r"
        by simp
      with ne hdr same show ?thesis by blast
    qed
    have c: "?lookup ?key = None \<and> same_row r (open_sheet ws) out" if e: "?key = []"
    proof -
      from e have n: "?lookup ?key = None" by (simp add: build_lookup_no_empty_key)
      with step' e have "st_r = open_sheet ws" by simp
      with n same show ?thesis by simp
    qed
    from a b c show ?thesis by blast
  qed
  moreover have "same_row r (open_sheet ws) out"
    if "\<not> (2 \<le> r \<and> r \<le> max_row ws \<and> r - 2 < length (rows df_q2))"
    by (rule run_row_outside [OF assms that])
  ultimately show ?thesis by blast
qed

text \<open>
  C3 as the spec states it fails on the example: worksheet row 4 has an empty key; its
  cells in the selected columns C and O hold \<open>X\<close> and \<open>Y\<close>, values that no baseline
  row has in these columns, so any comparison would make them Changed; the saved
  worksheet has no fill on either cell.
\<close>

theorem empty_key_row_counterexample:
  "key_val_at (frame_of_rows ex_q2) ''OB Main ID'' 2 = [] \<and>
   saved_value ex_run (4, 3) = Some (Plain (Some ''X'')) \<and>
   ''X'' \<notin> set (column_values (frame_of_rows ex_q1) ''Note'') \<and>
   saved_fill ex_run (4, 3) = Some None \<and>
   saved_value ex_run (4, 15) = Some (Plain (Some ''Y'')) \<and>
   ''Y'' \<notin> set (column_values (frame_of_rows ex_q1) ''Status'') \<and>
   saved_fill ex_run (4, 15) = Some None"
  by code_simp

text \<open>
  C9 as the spec states it fails on the example: the cell in row 2 of column O was loaded
  with a text and is saved with a rich text.
\<close>

theorem cell_value_rewritten_counterexample:
  "ws_cells (sheet_of_rows ex_q2) (2, 15) = Some ''Alpha  Gamma'' \<and>
   saved_value ex_run (2, 15) =
     Some (Rich [TextBlock (InlineFont None) ''Alpha '',
                 TextBlock (InlineFont (Some ''FFFF0000'')) ''Gamma'']) \<and>
   saved_value ex_run (2, 15) \<noteq> Some (Plain (ws_cells (sheet_of_rows ex_q2) (2, 15)))"
  by code_simp

theorem every_row_one_way_witness:
  "\<exists>out. highlight_q2_changes (sheet_of_rows ex_q2) (frame_of_rows ex_q2) (frame_of_rows ex_q1)
            [''C'', ''O'']
          = ([Loading, Reading, Indexing, Scanning, Saving],
             Inr (''OB Main ID'', ''OB Main ID'', out)) \<and>
         key_val_at (frame_of_rows ex_q2) ''OB Main ID'' (5 - 2) = ''2002'' \<and>
         build_lookup (frame_of_rows ex_q1) ''OB Main ID'' ''2002'' = None \<and>
         same_row 5 (fill_row (open_sheet (sheet_of_rows ex_q2)) 5
                       (max_column (sheet_of_rows ex_q2))) out \<and>
         key_val_at (frame_of_rows ex_q2) ''OB Main ID'' (4 - 2) = [] \<and>
         same_row 4 (open_sheet (sheet_of_rows ex_q2)) out \<and>
         key_val_at (frame_of_rows ex_q2) ''OB Main ID'' (2 - 2) = ''1001'' \<and>
         (\<exists>q2h st_r. get_headers_for_letters (sheet_of_rows ex_q2) [''C'', ''O''] = Inr q2h \<and>
            compare_columns (frame_of_rows ex_q1)
              (ex_row (Some ''1'') (Some ''1001'') (Some ''same'') (Some ''Alpha Beta''))
              q2h (find_matching_headers_in_q1 (frame_of_rows ex_q1) q2h) 2
              (open_sheet (sheet_of_rows ex_q2)) [''C'', ''O''] = Inr st_r \<and>
            same_row 2 st_r out) \<and>
         same_row 7 (open_sheet (sheet_of_rows ex_q2)) out"
proof -
  from ex_run_result obtain out where
    run: "highlight_q2_changes (sheet_of_rows ex_q2) (frame_of_rows ex_q2) (frame_of_rows ex_q1)
            [''C'', ''O'']
          = ([Loading, Reading, Indexing, Scanning, Saving],
             Inr (''OB Main ID'', ''OB Main ID'', out))"
    by blast
  have k5: "key_val_at (frame_of_rows ex_q2) ''OB Main ID'' (5 - 2) = ''2002''"
    using ex_key_new by simp
  have k4: "key_val_at (frame_of_rows ex_q2) ''OB Main ID'' (4 - 2) = []"
    using ex_key_empty by simp
  have k2: "key_val_at (frame_of_rows ex_q2) ''OB Main ID'' (2 - 2) = ''1001''"
    using ex_key_matched by simp
  have r5: "same_row 5 (fill_row (open_sheet (sheet_of_rows ex_q2)) 5
                       (max_column (sheet_of_rows ex_q2))) out"
    using every_row_one_way [OF run, of 5] k5 ex_key_new_absent
    by (simp add: ex_dims)
  have r4: "same_row 4 (open_sheet (sheet_of_rows ex_q2)) out"
    using every_row_one_way [OF run, of 4] k4
    by (simp add: ex_dims)
  have r2: "\<exists>q2h st_r. get_headers_for_letters (sheet_of_rows ex_q2) [''C'', ''O''] = Inr q2h \<and>
            compare_columns (frame_of_rows ex_q1)
              (ex_row (Some ''1'') (Some ''1001'') (Some ''same'') (Some ''Alpha Beta''))
              q2h (find_matching_headers_in_q1 (frame_of_rows ex_q1) q2h) 2
              (open_sheet (sheet_of_rows ex_q2)) [''C'', ''O''] = Inr st_r \<and>
            same_row 2 st_r out"
    using every_row_one_way [OF run, of 2] k2 ex_key_matched_row
    by (simp add: ex_dims)
  have r7: "same_row 7 (open_sheet (sheet_of_rows ex_q2)) out"
    using every_row_one_way [OF run, of 7]
    by (simp add: ex_dims)
  from run k5 ex_key_new_absent r5 k4 r4 k2 r2 r7 show ?thesis by blast
qed

subsection \<open>A classified cell in the saved worksheet\<close>

text \<open>
  The two fills of the same colour: in the saved workbook a cell of a new row and a
  changed cell look alike.
\<close>

lemma changed_and_new_row_same_colour: "fill_argb changed_fill = fill_argb newrow_fill"
  by (simp add: fill_argb_def)

lemma compare_columns_other_columns:
  assumes "compare_columns df_q1 q1_row q2h q1h r st Ls = Inr st'"
      and "\<forall>L'\<in>set Ls. column_index_from_string L' \<noteq> Inr c"
  shows "fill_at st' (r, c) = fill_at st (r, c) \<and> value_at st' (r, c) = value_at st (r, c)"
  using assms
proof (induction Ls arbitrary: st)
  case Nil
  then show ?case by simp
next
  case (Cons L Ls)
  from Cons.prems(1) obtain st1 where
    step: "compare_cell df_q1 q1_row q2h q1h r st L = Inr st1" and
    rest: "compare_columns df_q1 q1_row q2h q1h r st1 Ls = Inr st'"
    by (auto split: sum.splits)
  from compare_cell_effect [OF step] Cons.prems(2)
  have "fill_at st1 (r, c) = fill_at st (r, c) \<and> value_at st1 (r, c) = value_at st (r, c)"
    by auto
  moreover from Cons.IH [OF rest] Cons.prems(2)
  have "fill_at st' (r, c) = fill_at st1 (r, c) \<and> value_at st' (r, c) = value_at st1 (r, c)"
    by simp
  ultimately show ?case by simp
qed

lemma compare_columns_cell:
  assumes "compare_columns df_q1 q1_row q2h q1h r st Ls = Inr st'"
      and "L \<in> set Ls" and "distinct Ls"
      and "column_index_from_string L = Inr c"
      and "\<forall>L'\<in>set Ls. column_index_from_string L' = Inr c \<longrightarrow> L' = L"
      and "value_at st (r, c) = Plain v"
  shows "fill_at st' (r, c) =
           fill_at (mark_cell st r c L (q1_value df_q1 q1_row q2h q1h L) (to_str v)) (r, c) \<and>
         value_at st' (r, c) =
           value_at (mark_cell st r c L (q1_value df_q1 q1_row q2h q1h L) (to_str v)) (r, c)"
  using assms(1,2,3,5,6)
proof (induction Ls arbitrary: st)
  case Nil
  then show ?case by simp
next
  case (Cons L0 Ls)
  from Cons.prems(1) obtain st1 where
    step: "compare_cell df_q1 q1_row q2h q1h r st L0 = Inr st1" and
    rest: "compare_columns df_q1 q1_row q2h q1h r st1 Ls = Inr st'"
    by (auto split: sum.splits)
  from Cons.prems(3) have d: "L0 \<notin> set Ls" "distinct Ls" by simp_all
  from Cons.prems(4) have u0: "column_index_from_string L0 = Inr c \<longrightarrow> L0 = L"
    and u: "\<forall>L'\<in>set Ls. column_index_from_string L' = Inr c \<longrightarrow> L' = L"
    by simp_all
  from compare_cell_effect [OF step] obtain c0 where
    c0: "column_index_from_string L0 = Inr c0" and
    other: "\<forall>p. p \<noteq> (r, c0) \<longrightarrow> fill_at st1 p = fill_at st p \<and> value_at st1 p = value_at st p"
    by blast
  show ?case
  proof (cases "L0 = L")
    case True
    have "compare_cell df_q1 q1_row q2h q1h r st L =
            Inr (mark_cell st r c L (q1_value df_q1 q1_row q2h q1h L) (to_str v))"
      by (rule compare_cell_Plain [OF assms(4) Cons.prems(5)])
    with step True
    have st1: "st1 = mark_cell st r c L (q1_value df_q1 q1_row q2h q1h L) (to_str v)"
      by simp
    have "\<forall>L'\<in>set Ls. column_index_from_string L' \<noteq> Inr c"
    proof
      fix L' assume "L' \<in> set Ls"
      with d(1) True have "L' \<noteq> L" by blast
      with u \<open>L' \<in> set Ls\<close> show "column_index_from_string L' \<noteq> Inr c" by blast
    qed
    from compare_columns_other_columns [OF rest this] show ?thesis
      unfolding st1 .
  next
    case False
    with u0 have "column_index_from_string L0 \<noteq> Inr c" by blast
    with c0 have "(r, c) \<noteq> (r, c0)" by auto
    with other
    have keep: "fill_at st1 (r, c) = fill_at st (r, c)" "value_at st1 (r, c) = value_at st (r, c)"
      by blast+
    from False Cons.prems(2) have in_rest: "L \<in> set Ls" by simp
    from keep(2) Cons.prems(5) have v1: "value_at st1 (r, c) = Plain v" by simp
    from Cons.IH [OF rest in_rest d(2) u v1]
    have "fill_at st' (r, c) =
            fill_at (mark_cell st1 r c L (q1_value df_q1 q1_row q2h q1h L) (to_str v)) (r, c)"
         "value_at st' (r, c) =
            value_at (mark_cell st1 r c L (q1_value df_q1 q1_row q2h q1h L) (to_str v)) (r, c)"
      by blast+
    then show ?thesis
      by (simp add: mark_cell_fill mark_cell_value keep)
  qed
qed

text \<open>
  A run that saves a worksheet, a row that is matched in the baseline index, and a letter
  of the selection that alone stands for its column: in the saved worksheet the cell is
  what \<open>mark_cell\<close> makes of the loaded cell. So what is shown above for one step of
  the loop holds for the saved worksheet.
\<close>

lemma saved_cell:
  assumes "highlight_q2_changes ws df_q2 df_q1 letters = (log, Inr (kh1, kh2, out))"
      and "2 \<le> r" and "r \<le> max_row ws" and "r - 2 < length (rows df_q2)"
      and "build_lookup df_q1 kh1 (key_val_at df_q2 kh2 (r - 2)) = Some q1_row"
      and "L \<in> set letters" and "distinct letters"
      and "column_index_from_string L = Inr c"
      and "\<forall>L'\<in>set letters. column_index_from_string L' = Inr c \<longrightarrow> L' = L"
  shows "\<exists>q2h. get_headers_for_letters ws letters = Inr q2h \<and>
           fill_at out (r, c) =
             fill_at (mark_cell (open_sheet ws) r c L
                        (q1_value df_q1 q1_row q2h (find_matching_headers_in_q1 df_q1 q2h) L)
                        (to_str (ws_cells ws (r, c)))) (r, c) \<and>
           value_at out (r, c) =
             value_at (mark_cell (open_sheet ws) r c L
                         (q1_value df_q1 q1_row q2h (find_matching_headers_in_q1 df_q1 q2h) L)
                         (to_str (ws_cells ws (r, c)))) (r, c)"
proof -
  from run_row [OF assms(1,2,3)] obtain q2h st_r where
    hdr: "get_headers_for_letters ws letters = Inr q2h" and
    step: "process_row df_q2 kh2 (build_lookup df_q1 kh1) df_q1 q2h
             (find_matching_headers_in_q1 df_q1 q2h) letters (max_column ws)
             (open_sheet ws) r = Inr st_r" and
    same: "same_row r st_r out"
    by blast
  from step [unfolded process_row_in_range [OF assms(2,4)]] assms(5)
  have cols: "compare_columns df_q1 q1_row q2h (find_matching_headers_in_q1 df_q1 q2h) r
                (open_sheet ws) letters = Inr st_r"
    by simp
  have v: "value_at (open_sheet ws) (r, c) = Plain (ws_cells ws (r, c))"
    by (rule open_sheet_value)
  from compare_columns_cell [OF cols assms(6,7,8,9) v] hdr show ?thesis
    by (simp add: same_row_fill [OF same] same_row_value [OF same])
qed

section \<open>Which values a run rewrites\<close>

subsection \<open>A rewritten cell read again\<close>

text \<open>
  The tokens of \<open>split\<close> are non-empty and free of whitespace, so joining them with
  single blanks and splitting again gives the same tokens: the word diff of a text and
  the word diff of the text of that rich text are the same.
\<close>

lemma split_tokens: "t \<in> set (split s) \<Longrightarrow> t \<noteq> [] \<and> (\<forall>x\<in>set t. \<not> isspace x)"
proof (induction s rule: split.induct)
  case (1 s)
  show ?case
  proof (cases "dropWhile isspace s")
    case Nil
    with "1.prems" show ?thesis by (simp add: split_Nil)
  next
    case (Cons c cs)
    have c: "\<not> isspace c"
      using Cons hd_dropWhile [of isspace s] by fastforce
    from "1.prems" split_Cons [OF Cons]
    have "t = takeWhile (\<lambda>x. \<not> isspace x) (c # cs) \<or>
          t \<in> set (split (dropWhile (\<lambda>x. \<not> isspace x) (c # cs)))"
      by simp
    then show ?thesis
    proof
      assume t: "t = takeWhile (\<lambda>x. \<not> isspace x) (c # cs)"
      have "t \<noteq> []" using c by (simp add: t)
      moreover have "\<forall>x\<in>set t. \<not> isspace x"
        unfolding t by (auto dest: set_takeWhileD)
      ultimately show ?thesis by blast
    next
      assume "t \<in> set (split (dropWhile (\<lambda>x. \<not> isspace x) (c # cs)))"
      then show ?thesis by (rule "1.IH" [OF Cons])
    qed
  qed
qed

lemma split_lstrip: "split (dropWhile isspace s) = split s"
proof (cases "dropWhile isspace s")
  case Nil
  then have "dropWhile isspace (dropWhile isspace s) = []" by simp
  from split_Nil [OF this] split_Nil [OF Nil] show ?thesis by simp
next
  case (Cons c cs)
  have "dropWhile isspace (dropWhile isspace s) = dropWhile isspace s"
    by (rule dropWhile_idem)
  then have "dropWhile isspace (dropWhile isspace s) = c # cs"
    by (simp only: Cons)
  from split_Cons [OF this] split_Cons [OF Cons] show ?thesis by simp
qed

lemma split_token_append:
  assumes "t \<noteq> []" and "\<forall>x\<in>set t. \<not> isspace x" and "u = [] \<or> isspace (hd u)"
  shows "split (t @ u) = t # split u"
proof -
  from assms(1) obtain c cs where t: "t = c # cs" by (cases t) auto
  with assms(2) have c: "\<not> isspace c" by simp
  then have d: "dropWhile isspace (t @ u) = c # (cs @ u)" by (simp add: t)
  have tw: "takeWhile (\<lambda>x. \<not> isspace x) (t @ u) = t"
    using assms(2,3) by (cases u) (simp_all add: takeWhile_append)
  have dw: "dropWhile (\<lambda>x. \<not> isspace x) (t @ u) = u"
    using assms(2,3) by (cases u) (simp_all add: dropWhile_append)
  from split_Cons [OF d] tw dw show ?thesis by (simp add: t)
qed

lemma split_join:
  "\<forall>t\<in>set ts. t \<noteq> [] \<and> (\<forall>x\<in>set t. \<not> isspace x) \<Longrightarrow> split (join '' '' ts) = ts"
proof (induction ts)
  case Nil
  show ?case by (simp add: split_Nil)
next
  case (Cons t ts)
  then have t: "t \<noteq> []" "\<forall>x\<in>set t. \<not> isspace x" and IH: "split (join '' '' ts) = ts"
    by simp_all
  show ?case
  proof (cases "ts = []")
    case True
    have "split (t @ []) = t # split []"
      by (rule split_token_append [OF t]) simp
    with True show ?thesis by (simp add: split_Nil)
  next
    case False
    have sp: "isspace CHR '' ''" by (simp add: isspace_def)
    have "split (t @ ('' '' @ join '' '' ts)) = t # split ('' '' @ join '' '' ts)"
      by (rule split_token_append [OF t]) (simp add: sp)
    moreover have "split ('' '' @ join '' '' ts) = split (join '' '' ts)"
      using split_lstrip [of "'' '' @ join '' '' ts"] split_lstrip [of "join '' '' ts"] sp
      by simp
    ultimately show ?thesis using False IH by (simp add: join_Cons)
  qed
qed

lemma strip_strip: "strip (strip s) = strip s"
proof -
  define y where "y = dropWhile isspace s"
  define z where "z = rev (dropWhile isspace (rev y))"
  have yz: "\<exists>w. y = z @ w"
  proof -
    have "rev y = takeWhile isspace (rev y) @ dropWhile isspace (rev y)" by simp
    then have "y = rev (dropWhile isspace (rev y)) @ rev (takeWhile isspace (rev y))"
      by (metis rev_append rev_rev_ident)
    then show ?thesis unfolding z_def by blast
  qed
  have hy: "y = [] \<or> \<not> isspace (hd y)"
    unfolding y_def using hd_dropWhile [of isspace s] by blast
  have "z = [] \<or> \<not> isspace (hd z)"
  proof (cases "z = []")
    case True
    then show ?thesis by simp
  next
    case False
    with yz have "hd z = hd y" "y \<noteq> []" by auto
    with hy show ?thesis by simp
  qed
  then have dz: "dropWhile isspace z = z" by (cases z) auto
  have "strip s = z" by (simp add: strip_def strip_chars_def y_def z_def)
  moreover have "strip z = rev (dropWhile isspace (rev z))"
    by (simp add: strip_def strip_chars_def dz)
  moreover have "rev (dropWhile isspace (rev z)) = z"
    by (simp add: z_def)
  ultimately show ?thesis by simp
qed

lemma split_word_diff_text:
  "split (strip (concat (map tb_text (word_diff_rt old_text new_text)))) = split new_text"
proof -
  have "strip (join '' '' (split new_text)) = join '' '' (split new_text)"
    by (simp add: join_split strip_strip)
  moreover have "split (join '' '' (split new_text)) = split new_text"
    by (rule split_join) (blast dest: split_tokens)
  ultimately show ?thesis by (simp add: word_diff_text)
qed

lemma word_diff_rt_again:
  "word_diff_rt old_text (strip (concat (map tb_text (word_diff_rt old_text new_text))))
     = word_diff_rt old_text new_text"
  unfolding word_diff_rt_def [of old_text "strip _"] split_word_diff_text
  by (simp add: word_diff_rt_def)

lemma word_diff_columns_index:
  "column_index_from_string ''O'' = Inr 15"
  "column_index_from_string ''S'' = Inr 19"
  "column_index_from_string ''T'' = Inr 20"
  by code_simp+

lemma word_diff_letter_unique:
  assumes "L \<in> WORD_DIFF_COLUMNS" and "L' \<in> WORD_DIFF_COLUMNS"
      and "column_index_from_string L = Inr c" and "column_index_from_string L' = Inr c"
  shows "L' = L"
  using assms unfolding WORD_DIFF_COLUMNS_def
  by (auto simp: word_diff_columns_index)

subsection \<open>The loop over the selected letters, on one cell\<close>

lemma compare_cell_value_at:
  assumes "compare_cell df_q1 q1_row q2h q1h r st L = Inr st1"
  shows "\<exists>c0 q2_val. column_index_from_string L = Inr c0 \<and>
           cell_to_str (value_at st (r, c0)) = Inr q2_val \<and>
           (\<forall>c. value_at st1 (r, c) =
                  (if c = c0 \<and> q2_val \<noteq> q1_value df_q1 q1_row q2h q1h L \<and>
                      L \<in> WORD_DIFF_COLUMNS \<and> q2_val \<noteq> []
                   then Rich (word_diff_rt (q1_value df_q1 q1_row q2h q1h L) q2_val)
                   else value_at st (r, c)))"
proof -
  from assms obtain c0 q2_val where c0: "column_index_from_string L = Inr c0"
    and v: "cell_to_str (value_at st (r, c0)) = Inr q2_val"
    and st1: "st1 = mark_cell st r c0 L (q1_value df_q1 q1_row q2h q1h L) q2_val"
    by (auto simp: compare_cell_def split: sum.splits)
  have "\<forall>c. value_at st1 (r, c) =
                  (if c = c0 \<and> q2_val \<noteq> q1_value df_q1 q1_row q2h q1h L \<and>
                      L \<in> WORD_DIFF_COLUMNS \<and> q2_val \<noteq> []
                   then Rich (word_diff_rt (q1_value df_q1 q1_row q2h q1h L) q2_val)
                   else value_at st (r, c))"
    unfolding st1 by (simp add: mark_cell_value)
  with c0 v show ?thesis by blast
qed

lemma compare_cell_keeps_rich:
  assumes "compare_cell df_q1 q1_row q2h q1h r st L = Inr st1"
      and "value_at st (r, c) = Rich rt"
  shows "\<exists>rt'. value_at st1 (r, c) = Rich rt'"
proof -
  from compare_cell_value_at [OF assms(1)] obtain c0 q2_val where
    e: "\<forall>c. value_at st1 (r, c) =
                  (if c = c0 \<and> q2_val \<noteq> q1_value df_q1 q1_row q2h q1h L \<and>
                      L \<in> WORD_DIFF_COLUMNS \<and> q2_val \<noteq> []
                   then Rich (word_diff_rt (q1_value df_q1 q1_row q2h q1h L) q2_val)
                   else value_at st (r, c))"
    by blast
  show ?thesis
    using e [rule_format, of c] assms(2) by (simp split: if_splits)
qed

lemma compare_columns_keeps_rich:
  assumes "compare_columns df_q1 q1_row q2h q1h r st Ls = Inr st'"
      and "value_at st (r, c) = Rich rt"
  shows "\<exists>rt'. value_at st' (r, c) = Rich rt'"
  using assms
proof (induction Ls arbitrary: st rt)
  case Nil
  then show ?case by simp
next
  case (Cons L Ls)
  from Cons.prems(1) obtain st1 where
    step: "compare_cell df_q1 q1_row q2h q1h r st L = Inr st1" and
    rest: "compare_columns df_q1 q1_row q2h q1h r st1 Ls = Inr st'"
    by (auto split: sum.splits)
  from compare_cell_keeps_rich [OF step Cons.prems(2)] obtain rt1 where
    "value_at st1 (r, c) = Rich rt1"
    by blast
  from Cons.IH [OF rest this] show ?case .
qed

text \<open>
  One step on a cell that still holds what was loaded: the value becomes the word diff
  when the letter stands for the column of the cell, is one of
  \<open>WORD_DIFF_COLUMNS\<close>, and the trimmed value is non-empty and differs from the
  baseline value; otherwise it stays.
\<close>

lemma compare_cell_on_plain:
  assumes "compare_cell df_q1 q1_row q2h q1h r st L = Inr st1"
      and "value_at st (r, c) = Plain v"
  shows "value_at st1 (r, c) =
           (if column_index_from_string L = Inr c \<and> L \<in> WORD_DIFF_COLUMNS \<and>
               to_str v \<noteq> [] \<and> to_str v \<noteq> q1_value df_q1 q1_row q2h q1h L
            then Rich (word_diff_rt (q1_value df_q1 q1_row q2h q1h L) (to_str v))
            else Plain v)"
proof -
  from compare_cell_value_at [OF assms(1)] obtain c0 q2_val where
    c0: "column_index_from_string L = Inr c0" and
    v: "cell_to_str (value_at st (r, c0)) = Inr q2_val" and
    e: "\<forall>c. value_at st1 (r, c) =
                  (if c = c0 \<and> q2_val \<noteq> q1_value df_q1 q1_row q2h q1h L \<and>
                      L \<in> WORD_DIFF_COLUMNS \<and> q2_val \<noteq> []
                   then Rich (word_diff_rt (q1_value df_q1 q1_row q2h q1h L) q2_val)
                   else value_at st (r, c))"
    by blast
  show ?thesis
  proof (cases "c = c0")
    case True
    with v assms(2) have "q2_val = to_str v" by (simp add: cell_to_str_Plain)
    with e [rule_format, of c] True c0 assms(2) show ?thesis by auto
  next
    case False
    with e [rule_format, of c] c0 assms(2) show ?thesis by auto
  qed
qed

lemma compare_columns_plain_or_rich:
  assumes "compare_columns df_q1 q1_row q2h q1h r st Ls = Inr st'"
      and "value_at st (r, c) = Plain v"
  shows "value_at st' (r, c) = Plain v \<or>
         (\<exists>L\<in>set Ls. column_index_from_string L = Inr c \<and> L \<in> WORD_DIFF_COLUMNS \<and>
             to_str v \<noteq> [] \<and> to_str v \<noteq> q1_value df_q1 q1_row q2h q1h L) \<and>
         (\<exists>rt. value_at st' (r, c) = Rich rt)"
  using assms
proof (induction Ls arbitrary: st)
  case Nil
  then show ?case by simp
next
  case (Cons L Ls)
  from Cons.prems(1) obtain st1 where
    step: "compare_cell df_q1 q1_row q2h q1h r st L = Inr st1" and
    rest: "compare_columns df_q1 q1_row q2h q1h r st1 Ls = Inr st'"
    by (auto split: sum.splits)
  note one = compare_cell_on_plain [OF step Cons.prems(2)]
  show ?case
  proof (cases "column_index_from_string L = Inr c \<and> L \<in> WORD_DIFF_COLUMNS \<and>
               to_str v \<noteq> [] \<and> to_str v \<noteq> q1_value df_q1 q1_row q2h q1h L")
    case True
    with one have "value_at st1 (r, c) =
        Rich (word_diff_rt (q1_value df_q1 q1_row q2h q1h L) (to_str v))"
      by simp
    from compare_columns_keeps_rich [OF rest this] True show ?thesis
      by auto
  next
    case False
    with one have "value_at st1 (r, c) = Plain v" by simp
    from Cons.IH [OF rest this] show ?thesis by auto
  qed
qed

lemma compare_columns_becomes_rich:
  assumes "compare_columns df_q1 q1_row q2h q1h r st Ls = Inr st'"
      and "value_at st (r, c) = Plain v"
      and "L \<in> set Ls"
      and "column_index_from_string L = Inr c" and "L \<in> WORD_DIFF_COLUMNS"
      and "to_str v \<noteq> []" and "to_str v \<noteq> q1_value df_q1 q1_row q2h q1h L"
  shows "\<exists>rt. value_at st' (r, c) = Rich rt"
  using assms(1,2,3)
proof (induction Ls arbitrary: st)
  case Nil
  then show ?case by simp
next
  case (Cons L0 Ls)
  from Cons.prems(1) obtain st1 where
    step: "compare_cell df_q1 q1_row q2h q1h r st L0 = Inr st1" and
    rest: "compare_columns df_q1 q1_row q2h q1h r st1 Ls = Inr st'"
    by (auto split: sum.splits)
  note one = compare_cell_on_plain [OF step Cons.prems(2)]
  show ?case
  proof (cases "value_at st1 (r, c) = Plain v")
    case True
    have "L0 \<noteq> L"
    proof
      assume "L0 = L"
      with one assms(4,5,6,7) have "value_at st1 (r, c) \<noteq> Plain v" by simp
      with True show False by simp
    qed
    with Cons.prems(3) have "L \<in> set Ls" by simp
    from Cons.IH [OF rest True this] show ?thesis .
  next
    case False
    with one obtain rt1 where "value_at st1 (r, c) = Rich rt1"
      by (auto split: if_splits)
    from compare_columns_keeps_rich [OF rest this] show ?thesis .
  qed
qed

lemma compare_cell_on_diff:
  assumes "compare_cell df_q1 q1_row q2h q1h r st L0 = Inr st1"
      and "value_at st (r, c) = Rich (word_diff_rt (q1_value df_q1 q1_row q2h q1h L) s)"
      and "L \<in> WORD_DIFF_COLUMNS" and "column_index_from_string L = Inr c"
  shows "value_at st1 (r, c) = Rich (word_diff_rt (q1_value df_q1 q1_row q2h q1h L) s)"
proof -
  from compare_cell_value_at [OF assms(1)] obtain c0 q2_val where
    c0: "column_index_from_string L0 = Inr c0" and
    v: "cell_to_str (value_at st (r, c0)) = Inr q2_val" and
    e: "\<forall>c. value_at st1 (r, c) =
                  (if c = c0 \<and> q2_val \<noteq> q1_value df_q1 q1_row q2h q1h L0 \<and>
                      L0 \<in> WORD_DIFF_COLUMNS \<and> q2_val \<noteq> []
                   then Rich (word_diff_rt (q1_value df_q1 q1_row q2h q1h L0) q2_val)
                   else value_at st (r, c))"
    by blast
  note here = e [rule_format, of c]
  show ?thesis
  proof (cases "c = c0 \<and> q2_val \<noteq> q1_value df_q1 q1_row q2h q1h L0 \<and>
                      L0 \<in> WORD_DIFF_COLUMNS \<and> q2_val \<noteq> []")
    case True
    with c0 have "column_index_from_string L0 = Inr c" "L0 \<in> WORD_DIFF_COLUMNS" by simp_all
    from word_diff_letter_unique [OF assms(3) this(2) assms(4) this(1)]
    have same: "L0 = L" .
    from True v assms(2)
    have "q2_val = strip (concat (map tb_text
             (word_diff_rt (q1_value df_q1 q1_row q2h q1h L) s)))"
      by (simp add: cell_to_str_def split: if_splits)
    then have "word_diff_rt (q1_value df_q1 q1_row q2h q1h L) q2_val =
               word_diff_rt (q1_value df_q1 q1_row q2h q1h L) s"
      by (simp only: word_diff_rt_again)
    with here True same show ?thesis by simp
  next
    case False
    with here assms(2) show ?thesis by simp
  qed
qed

lemma compare_columns_on_diff:
  assumes "compare_columns df_q1 q1_row q2h q1h r st Ls = Inr st'"
      and "value_at st (r, c) = Rich (word_diff_rt (q1_value df_q1 q1_row q2h q1h L) s)"
      and "L \<in> WORD_DIFF_COLUMNS" and "column_index_from_string L = Inr c"
  shows "value_at st' (r, c) = Rich (word_diff_rt (q1_value df_q1 q1_row q2h q1h L) s)"
  using assms(1,2)
proof (induction Ls arbitrary: st)
  case Nil
  then show ?case by simp
next
  case (Cons L0 Ls)
  from Cons.prems(1) obtain st1 where
    step: "compare_cell df_q1 q1_row q2h q1h r st L0 = Inr st1" and
    rest: "compare_columns df_q1 q1_row q2h q1h r st1 Ls = Inr st'"
    by (auto split: sum.splits)
  from compare_cell_on_diff [OF step Cons.prems(2) assms(3,4)]
  have "value_at st1 (r, c) = Rich (word_diff_rt (q1_value df_q1 q1_row q2h q1h L) s)" .
  from Cons.IH [OF rest this] show ?case .
qed

text \<open>
  The loop over the selected letters, on a cell that holds what was loaded: the value
  stays, unless one of the letters stands for the column of the cell, is one of
  \<open>WORD_DIFF_COLUMNS\<close>, and finds the trimmed value non-empty and different from the
  baseline value; then the value is the word diff of the two.
\<close>

lemma compare_columns_value:
  assumes "compare_columns df_q1 q1_row q2h q1h r st Ls = Inr st'"
      and "value_at st (r, c) = Plain v"
  shows "(\<not> (\<exists>L. L \<in> set Ls \<and> column_index_from_string L = Inr c \<and> L \<in> WORD_DIFF_COLUMNS \<and>
               to_str v \<noteq> [] \<and> to_str v \<noteq> q1_value df_q1 q1_row q2h q1h L) \<and>
          value_at st' (r, c) = Plain v) \<or>
         (\<exists>L. L \<in> set Ls \<and> column_index_from_string L = Inr c \<and> L \<in> WORD_DIFF_COLUMNS \<and>
               to_str v \<noteq> [] \<and> to_str v \<noteq> q1_value df_q1 q1_row q2h q1h L \<and>
               value_at st' (r, c) =
                 Rich (word_diff_rt (q1_value df_q1 q1_row q2h q1h L) (to_str v)))"
  using assms
proof (induction Ls arbitrary: st)
  case Nil
  then show ?case by simp
next
  case (Cons L0 Ls)
  from Cons.prems(1) obtain st1 where
    step: "compare_cell df_q1 q1_row q2h q1h r st L0 = Inr st1" and
    rest: "compare_columns df_q1 q1_row q2h q1h r st1 Ls = Inr st'"
    by (auto split: sum.splits)
  note one = compare_cell_on_plain [OF step Cons.prems(2)]
  show ?case
  proof (cases "column_index_from_string L0 = Inr c \<and> L0 \<in> WORD_DIFF_COLUMNS \<and>
               to_str v \<noteq> [] \<and> to_str v \<noteq> q1_value df_q1 q1_row q2h q1h L0")
    case True
    with one have "value_at st1 (r, c) =
        Rich (word_diff_rt (q1_value df_q1 q1_row q2h q1h L0) (to_str v))"
      by simp
    from compare_columns_on_diff [OF rest this] True
    have "value_at st' (r, c) =
        Rich (word_diff_rt (q1_value df_q1 q1_row q2h q1h L0) (to_str v))"
      by blast
    moreover have "L0 \<in> set (L0 # Ls)" by simp
    ultimately show ?thesis using True by blast
  next
    case False
    with one have "value_at st1 (r, c) = Plain v" by simp
    from Cons.IH [OF rest this]
    have "(\<not> (\<exists>L. L \<in> set Ls \<and> column_index_from_string L = Inr c \<and> L \<in> WORD_DIFF_COLUMNS \<and>
               to_str v \<noteq> [] \<and> to_str v \<noteq> q1_value df_q1 q1_row q2h q1h L) \<and>
          value_at st' (r, c) = Plain v) \<or>
         (\<exists>L. L \<in> set Ls \<and> column_index_from_string L = Inr c \<and> L \<in> WORD_DIFF_COLUMNS \<and>
               to_str v \<noteq> [] \<and> to_str v \<noteq> q1_value df_q1 q1_row q2h q1h L \<and>
               value_at st' (r, c) =
                 Rich (word_diff_rt (q1_value df_q1 q1_row q2h q1h L) (to_str v)))" .
    then show ?thesis
    proof
      assume a: "\<not> (\<exists>L. L \<in> set Ls \<and> column_index_from_string L = Inr c \<and> L \<in> WORD_DIFF_COLUMNS \<and>
               to_str v \<noteq> [] \<and> to_str v \<noteq> q1_value df_q1 q1_row q2h q1h L) \<and>
          value_at st' (r, c) = Plain v"
      have "\<not> (\<exists>L. L \<in> set (L0 # Ls) \<and> column_index_from_string L = Inr c \<and>
               L \<in> WORD_DIFF_COLUMNS \<and>
               to_str v \<noteq> [] \<and> to_str v \<noteq> q1_value df_q1 q1_row q2h q1h L)"
      proof
        assume "\<exists>L. L \<in> set (L0 # Ls) \<and> column_index_from_string L = Inr c \<and>
               L \<in> WORD_DIFF_COLUMNS \<and>
               to_str v \<noteq> [] \<and> to_str v \<noteq> q1_value df_q1 q1_row q2h q1h L"
        then obtain L where L: "L \<in> set (L0 # Ls)" "column_index_from_string L = Inr c \<and>
               L \<in> WORD_DIFF_COLUMNS \<and>
               to_str v \<noteq> [] \<and> to_str v \<noteq> q1_value df_q1 q1_row q2h q1h L"
          by blast
        with False have "L \<noteq> L0" by blast
        with L(1) have "L \<in> set Ls" by simp
        with L(2) a show False by blast
      qed
      with a show ?thesis by blast
    next
      assume "\<exists>L. L \<in> set Ls \<and> column_index_from_string L = Inr c \<and> L \<in> WORD_DIFF_COLUMNS \<and>
               to_str v \<noteq> [] \<and> to_str v \<noteq> q1_value df_q1 q1_row q2h q1h L \<and>
               value_at st' (r, c) =
                 Rich (word_diff_rt (q1_value df_q1 q1_row q2h q1h L) (to_str v))"
      then obtain L where "L \<in> set Ls" "column_index_from_string L = Inr c"
          "L \<in> WORD_DIFF_COLUMNS" "to_str v \<noteq> []"
          "to_str v \<noteq> q1_value df_q1 q1_row q2h q1h L"
          "value_at st' (r, c) =
                 Rich (word_diff_rt (q1_value df_q1 q1_row q2h q1h L) (to_str v))"
        by blast
      moreover from this(1) have "L \<in> set (L0 # Ls)" by simp
      ultimately show ?thesis by blast
    qed
  qed
qed

subsection \<open>The saved worksheet\<close>

text \<open>
  C9, as the code has it. A run reads the baseline frame and returns the worksheet of
  the Second workbook with its annotations. In the worksheet that a run saves, the value
  of a cell is a rich text exactly when the row is one that the loop reaches and whose
  trimmed key is in the baseline index, the column is that of a selected letter of
  \<open>WORD_DIFF_COLUMNS\<close>, and the cell is Changed with a non-empty value: the
  trimmed value loaded is non-empty and differs from the baseline value for that letter.
  The rich text is then the word diff of the baseline value and the trimmed value
  loaded. Every other cell holds the value that was loaded.
\<close>

theorem value_rewritten_iff_word_diff:
  assumes "highlight_q2_changes ws df_q2 df_q1 letters = (log, Inr (kh1, kh2, out))"
  shows "(value_at out (r, c) = Plain (ws_cells ws (r, c)) \<or>
          (\<exists>rt. value_at out (r, c) = Rich rt)) \<and>
         (\<forall>rt. value_at out (r, c) = Rich rt \<longleftrightarrow>
            2 \<le> r \<and> r \<le> max_row ws \<and> r - 2 < length (rows df_q2) \<and>
            (\<exists>q1_row q2h L.
               build_lookup df_q1 kh1 (key_val_at df_q2 kh2 (r - 2)) = Some q1_row \<and>
               get_headers_for_letters ws letters = Inr q2h \<and>
               L \<in> set letters \<and> L \<in> WORD_DIFF_COLUMNS \<and>
               column_index_from_string L = Inr c \<and>
               to_str (ws_cells ws (r, c)) \<noteq> [] \<and>
               to_str (ws_cells ws (r, c)) \<noteq>
                 q1_value df_q1 q1_row q2h (find_matching_headers_in_q1 df_q1 q2h) L \<and>
               rt = word_diff_rt
                      (q1_value df_q1 q1_row q2h (find_matching_headers_in_q1 df_q1 q2h) L)
                      (to_str (ws_cells ws (r, c)))))"
proof -
  let ?key = "key_val_at df_q2 kh2 (r - 2)"
  let ?lookup = "build_lookup df_q1 kh1"
  let ?v = "ws_cells ws (r, c)"
  let ?cond = "\<lambda>q1_row q2h L.
               ?lookup ?key = Some q1_row \<and>
               get_headers_for_letters ws letters = Inr q2h \<and>
               L \<in> set letters \<and> L \<in> WORD_DIFF_COLUMNS \<and>
               column_index_from_string L = Inr c \<and>
               to_str ?v \<noteq> [] \<and>
               to_str ?v \<noteq>
                 q1_value df_q1 q1_row q2h (find_matching_headers_in_q1 df_q1 q2h) L"
  let ?wd = "\<lambda>q1_row q2h L. word_diff_rt
                      (q1_value df_q1 q1_row q2h (find_matching_headers_in_q1 df_q1 q2h) L)
                      (to_str ?v)"
  let ?range = "2 \<le> r \<and> r \<le> max_row ws \<and> r - 2 < length (rows df_q2)"
  have plain_case: ?thesis
    if p: "value_at out (r, c) = Plain ?v"
      and n: "\<not> (?range \<and> (\<exists>q1_row q2h L. ?cond q1_row q2h L))"
  proof -
    have "\<And>rt. value_at out (r, c) \<noteq> Rich rt" using p by simp
    moreover have "\<And>rt. \<not> (?range \<and> (\<exists>q1_row q2h L. ?cond q1_row q2h L \<and> rt = ?wd q1_row q2h L))"
      using n by blast
    ultimately show ?thesis using p by blast
  qed
  show ?thesis
  proof (cases ?range)
    case False
    from run_row_outside [OF assms False]
    have "value_at out (r, c) = value_at (open_sheet ws) (r, c)"
      by (rule same_row_value)
    then have "value_at out (r, c) = Plain ?v" by (simp add: open_sheet_value)
    with False show ?thesis by (intro plain_case) blast+
  next
    case True
    then have range: "2 \<le> r" "r \<le> max_row ws" "r - 2 < length (rows df_q2)" by simp_all
    from run_row [OF assms range(1,2)] obtain q2h st_r where
      hdr: "get_headers_for_letters ws letters = Inr q2h" and
      step: "process_row df_q2 kh2 ?lookup df_q1 q2h
               (find_matching_headers_in_q1 df_q1 q2h) letters (max_column ws)
               (open_sheet ws) r = Inr st_r" and
      same: "same_row r st_r out"
      by blast
    note step' = step [unfolded process_row_in_range [OF range(1,3)]]
    have out: "value_at out (r, c) = value_at st_r (r, c)"
      using same by (rule same_row_value)
    show ?thesis
    proof (cases "?lookup ?key")
      case None
      have "value_at st_r (r, c) = Plain ?v"
      proof (cases "?key \<noteq> []")
        case True
        with step' None have "st_r = fill_row (open_sheet ws) r (max_column ws)" by simp
        then show ?thesis by (simp add: fill_row_value open_sheet_value)
      next
        case False
        with step' None have "st_r = open_sheet ws" by simp
        then show ?thesis by (simp add: open_sheet_value)
      qed
      with out have "value_at out (r, c) = Plain ?v" by simp
      moreover from None have "\<not> (?range \<and> (\<exists>q1_row q2h L. ?cond q1_row q2h L))" by simp
      ultimately show ?thesis by (rule plain_case)
    next
      case (Some q1_row)
      with step' have cols: "compare_columns df_q1 q1_row q2h
          (find_matching_headers_in_q1 df_q1 q2h) r (open_sheet ws) letters = Inr st_r"
        by simp
      have v: "value_at (open_sheet ws) (r, c) = Plain ?v" by (rule open_sheet_value)
      have uniq: "q1_row' = q1_row \<and> q2h' = q2h" if "?cond q1_row' q2h' L" for q1_row' q2h' L
        using that Some hdr by simp
      from compare_columns_value [OF cols v]
      have "(\<not> (\<exists>L. L \<in> set letters \<and> column_index_from_string L = Inr c \<and>
                  L \<in> WORD_DIFF_COLUMNS \<and> to_str ?v \<noteq> [] \<and>
                  to_str ?v \<noteq> q1_value df_q1 q1_row q2h
                                (find_matching_headers_in_q1 df_q1 q2h) L) \<and>
             value_at st_r (r, c) = Plain ?v) \<or>
            (\<exists>L. L \<in> set letters \<and> column_index_from_string L = Inr c \<and>
                  L \<in> WORD_DIFF_COLUMNS \<and> to_str ?v \<noteq> [] \<and>
                  to_str ?v \<noteq> q1_value df_q1 q1_row q2h
                                (find_matching_headers_in_q1 df_q1 q2h) L \<and>
                  value_at st_r (r, c) = Rich (?wd q1_row q2h L))" .
      then show ?thesis
      proof
        assume a: "\<not> (\<exists>L. L \<in> set letters \<and> column_index_from_string L = Inr c \<and>
                  L \<in> WORD_DIFF_COLUMNS \<and> to_str ?v \<noteq> [] \<and>
                  to_str ?v \<noteq> q1_value df_q1 q1_row q2h
                                (find_matching_headers_in_q1 df_q1 q2h) L) \<and>
             value_at st_r (r, c) = Plain ?v"
        with out have p: "value_at out (r, c) = Plain ?v" by simp
        have "\<not> (\<exists>q1_row q2h L. ?cond q1_row q2h L)"
        proof
          assume "\<exists>q1_row q2h L. ?cond q1_row q2h L"
          then obtain q1_row' q2h' L where c: "?cond q1_row' q2h' L" by blast
          from uniq [OF c] c have "?cond q1_row q2h L" by simp
          with a show False by blast
        qed
        then have "\<not> (?range \<and> (\<exists>q1_row q2h L. ?cond q1_row q2h L))" by blast
        with p show ?thesis by (rule plain_case)
      next
        assume "\<exists>L. L \<in> set letters \<and> column_index_from_string L = Inr c \<and>
                  L \<in> WORD_DIFF_COLUMNS \<and> to_str ?v \<noteq> [] \<and>
                  to_str ?v \<noteq> q1_value df_q1 q1_row q2h
                                (find_matching_headers_in_q1 df_q1 q2h) L \<and>
                  value_at st_r (r, c) = Rich (?wd q1_row q2h L)"
        then obtain L0 where
          L0: "L0 \<in> set letters" "column_index_from_string L0 = Inr c"
              "L0 \<in> WORD_DIFF_COLUMNS" "to_str ?v \<noteq> []"
              "to_str ?v \<noteq> q1_value df_q1 q1_row q2h
                                (find_matching_headers_in_q1 df_q1 q2h) L0" and
          val: "value_at st_r (r, c) = Rich (?wd q1_row q2h L0)"
          by blast
        from val out have r: "value_at out (r, c) = Rich (?wd q1_row q2h L0)" by simp
        have c0: "?cond q1_row q2h L0" using Some hdr L0 by simp
        have "(value_at out (r, c) = Rich rt) =
              (?range \<and> (\<exists>q1_row q2h L. ?cond q1_row q2h L \<and> rt = ?wd q1_row q2h L))" for rt
        proof
          assume "value_at out (r, c) = Rich rt"
          with r have "rt = ?wd q1_row q2h L0" by simp
          with c0 True show "?range \<and> (\<exists>q1_row q2h L. ?cond q1_row q2h L \<and> rt = ?wd q1_row q2h L)"
            by blast
        next
          assume "?range \<and> (\<exists>q1_row q2h L. ?cond q1_row q2h L \<and> rt = ?wd q1_row q2h L)"
          then obtain q1_row' q2h' L where c: "?cond q1_row' q2h' L"
            and rt: "rt = ?wd q1_row' q2h' L"
            by blast
          from uniq [OF c] have u: "q1_row' = q1_row" "q2h' = q2h" by simp_all
          from c have "L \<in> WORD_DIFF_COLUMNS" "column_index_from_string L = Inr c" by simp_all
          from word_diff_letter_unique [OF L0(3) this(1) L0(2) this(2)] have "L = L0" .
          with rt u r show "value_at out (r, c) = Rich rt" by simp
        qed
        with r show ?thesis by blast
      qed
    qed
  qed
qed

lemma ex_q1_status_1001:
  "q1_value (frame_of_rows ex_q1)
      (ex_row (Some ''1'') (Some ''1001'') (Some ''same'') (Some ''Alpha Beta''))
      [''C'' \<mapsto> ''Note'', ''O'' \<mapsto> ''Status'']
      (find_matching_headers_in_q1 (frame_of_rows ex_q1)
         [''C'' \<mapsto> ''Note'', ''O'' \<mapsto> ''Status'']) ''O'' = ''Alpha Beta''"
  by code_simp

lemma ex_q1_status_1002:
  "q1_value (frame_of_rows ex_q1)
      (ex_row (Some ''2'') (Some ''1002'') (Some ''Keep'') (Some ''old''))
      [''C'' \<mapsto> ''Note'', ''O'' \<mapsto> ''Status'']
      (find_matching_headers_in_q1 (frame_of_rows ex_q1)
         [''C'' \<mapsto> ''Note'', ''O'' \<mapsto> ''Status'']) ''O'' = ''old''"
  by code_simp

lemma ex_key_unchanged: "key_val_at (frame_of_rows ex_q2) ''OB Main ID'' (3 - 2) = ''1002''"
  by code_simp

lemma ex_key_unchanged_row:
  "build_lookup (frame_of_rows ex_q1) ''OB Main ID'' ''1002''
     = Some (ex_row (Some ''2'') (Some ''1002'') (Some ''Keep'') (Some ''old''))"
  by code_simp

lemma ex_cell_2_15: "to_str (ws_cells (sheet_of_rows ex_q2) (2, 15)) = ''Alpha  Gamma''"
  by code_simp

lemma ex_cell_3_15: "ws_cells (sheet_of_rows ex_q2) (3, 15) = Some ''old''"
  by code_simp

lemma ex_cell_5_15: "ws_cells (sheet_of_rows ex_q2) (5, 15) = Some ''Z''"
  by code_simp

lemma ex_unchanged_q2: "to_str (Some ''old'') = ''old''"
  by code_simp

theorem value_rewritten_iff_word_diff_witness:
  "\<exists>out. highlight_q2_changes (sheet_of_rows ex_q2) (frame_of_rows ex_q2) (frame_of_rows ex_q1)
            [''C'', ''O'']
          = ([Loading, Reading, Indexing, Scanning, Saving],
             Inr (''OB Main ID'', ''OB Main ID'', out)) \<and>
         to_str (ws_cells (sheet_of_rows ex_q2) (2, 15)) = ''Alpha  Gamma'' \<and>
         value_at out (2, 15) =
           Rich [TextBlock (InlineFont None) ''Alpha '',
                 TextBlock (InlineFont (Some ''FFFF0000'')) ''Gamma''] \<and>
         ws_cells (sheet_of_rows ex_q2) (3, 15) = Some ''old'' \<and>
         value_at out (3, 15) = Plain (Some ''old'') \<and>
         build_lookup (frame_of_rows ex_q1) ''OB Main ID''
           (key_val_at (frame_of_rows ex_q2) ''OB Main ID'' (5 - 2)) = None \<and>
         value_at out (5, 15) = Plain (Some ''Z'')"
proof -
  let ?ws = "sheet_of_rows ex_q2"
  let ?q1 = "frame_of_rows ex_q1"
  let ?q2 = "frame_of_rows ex_q2"
  let ?h = "[''C'' \<mapsto> ''Note'', ''O'' \<mapsto> ''Status'']"
  from ex_run_result obtain out where
    run: "highlight_q2_changes ?ws ?q2 ?q1 [''C'', ''O'']
          = ([Loading, Reading, Indexing, Scanning, Saving],
             Inr (''OB Main ID'', ''OB Main ID'', out))"
    by blast
  have wd: "''O'' \<in> WORD_DIFF_COLUMNS" by (simp add: WORD_DIFF_COLUMNS_def)
  have k2: "key_val_at ?q2 ''OB Main ID'' (2 - 2) = ''1001''"
    using ex_key_matched by simp
  have range2: "(2::nat) \<le> 2 \<and> 2 \<le> max_row ?ws \<and> 2 - 2 < length (rows ?q2)"
    by (simp add: ex_dims)
  have cond2:
    "build_lookup ?q1 ''OB Main ID'' (key_val_at ?q2 ''OB Main ID'' (2 - 2))
       = Some (ex_row (Some ''1'') (Some ''1001'') (Some ''same'') (Some ''Alpha Beta'')) \<and>
     get_headers_for_letters ?ws [''C'', ''O''] = Inr ?h \<and>
     ''O'' \<in> set [''C'', ''O''] \<and> ''O'' \<in> WORD_DIFF_COLUMNS \<and>
     column_index_from_string ''O'' = Inr 15 \<and>
     to_str (ws_cells ?ws (2, 15)) \<noteq> [] \<and>
     to_str (ws_cells ?ws (2, 15)) \<noteq>
       q1_value ?q1 (ex_row (Some ''1'') (Some ''1001'') (Some ''same'') (Some ''Alpha Beta''))
         ?h (find_matching_headers_in_q1 ?q1 ?h) ''O'' \<and>
     word_diff_rt ''Alpha Beta'' ''Alpha  Gamma'' =
       word_diff_rt
         (q1_value ?q1 (ex_row (Some ''1'') (Some ''1001'') (Some ''same'') (Some ''Alpha Beta''))
            ?h (find_matching_headers_in_q1 ?q1 ?h) ''O'')
         (to_str (ws_cells ?ws (2, 15)))"
    unfolding k2 ex_key_matched_row ex_headers ex_q1_status_1001 ex_cell_2_15
    using wd ex_col_O by simp
  have "value_at out (2, 15) = Rich (word_diff_rt ''Alpha Beta'' ''Alpha  Gamma'')"
    using value_rewritten_iff_word_diff [OF run, of 2 15] range2 cond2 by blast
  then have a: "value_at out (2, 15) =
           Rich [TextBlock (InlineFont None) ''Alpha '',
                 TextBlock (InlineFont (Some ''FFFF0000'')) ''Gamma'']"
    by (simp only: ex_changed_rt)
  have no: "\<not> (\<exists>q1_row q2h L.
               build_lookup ?q1 ''OB Main ID'' (key_val_at ?q2 ''OB Main ID'' (3 - 2))
                 = Some q1_row \<and>
               get_headers_for_letters ?ws [''C'', ''O''] = Inr q2h \<and>
               L \<in> set [''C'', ''O''] \<and> L \<in> WORD_DIFF_COLUMNS \<and>
               column_index_from_string L = Inr 15 \<and>
               to_str (ws_cells ?ws (3, 15)) \<noteq> [] \<and>
               to_str (ws_cells ?ws (3, 15)) \<noteq>
                 q1_value ?q1 q1_row q2h (find_matching_headers_in_q1 ?q1 q2h) L \<and>
               rt = word_diff_rt
                      (q1_value ?q1 q1_row q2h (find_matching_headers_in_q1 ?q1 q2h) L)
                      (to_str (ws_cells ?ws (3, 15))))" for rt
  proof
    assume "\<exists>q1_row q2h L.
               build_lookup ?q1 ''OB Main ID'' (key_val_at ?q2 ''OB Main ID'' (3 - 2))
                 = Some q1_row \<and>
               get_headers_for_letters ?ws [''C'', ''O''] = Inr q2h \<and>
               L \<in> set [''C'', ''O''] \<and> L \<in> WORD_DIFF_COLUMNS \<and>
               column_index_from_string L = Inr 15 \<and>
               to_str (ws_cells ?ws (3, 15)) \<noteq> [] \<and>
               to_str (ws_cells ?ws (3, 15)) \<noteq>
                 q1_value ?q1 q1_row q2h (find_matching_headers_in_q1 ?q1 q2h) L \<and>
               rt = word_diff_rt
                      (q1_value ?q1 q1_row q2h (find_matching_headers_in_q1 ?q1 q2h) L)
                      (to_str (ws_cells ?ws (3, 15)))"
    then obtain q1_row q2h L where
      row: "build_lookup ?q1 ''OB Main ID'' (key_val_at ?q2 ''OB Main ID'' (3 - 2))
              = Some q1_row" and
      hdr: "get_headers_for_letters ?ws [''C'', ''O''] = Inr q2h" and
      L: "L \<in> set [''C'', ''O'']" "L \<in> WORD_DIFF_COLUMNS" and
      ne: "to_str (ws_cells ?ws (3, 15)) \<noteq>
             q1_value ?q1 q1_row q2h (find_matching_headers_in_q1 ?q1 q2h) L"
      by blast
    from row have q1_row:
      "q1_row = ex_row (Some ''2'') (Some ''1002'') (Some ''Keep'') (Some ''old'')"
      unfolding ex_key_unchanged ex_key_unchanged_row by simp
    from hdr have q2h: "q2h = ?h" unfolding ex_headers by simp
    from L have "L = ''O''" by (auto simp: WORD_DIFF_COLUMNS_def)
    with ne show False
      unfolding q1_row q2h ex_cell_3_15 by (simp add: ex_q1_status_1002 ex_unchanged_q2)
  qed
  have "value_at out (3, 15) = Plain (ws_cells ?ws (3, 15))"
    using value_rewritten_iff_word_diff [OF run, of 3 15] no by blast
  then have b: "value_at out (3, 15) = Plain (Some ''old'')"
    by (simp only: ex_cell_3_15)
  have k5: "build_lookup ?q1 ''OB Main ID'' (key_val_at ?q2 ''OB Main ID'' (5 - 2)) = None"
    using ex_key_new ex_key_new_absent by simp
  have "value_at out (5, 15) = Plain (ws_cells ?ws (5, 15))"
    using value_rewritten_iff_word_diff [OF run, of 5 15] k5 by auto
  then have c: "value_at out (5, 15) = Plain (Some ''Z'')"
    by (simp only: ex_cell_5_15)
  from run ex_cell_2_15 a ex_cell_3_15 b k5 c show ?thesis by blast
qed

end
